theory Spec2Isabelle
  imports Complex_Main "HOL-Library.Product_Lexorder"
begin

section \<open>Strings\<close>

text \<open>
  A Python \<^verbatim>\<open>str\<close> is a sequence of Unicode code points. A code point is a natural
  number here and a string a list of them; \<open>ustr\<close> reads an ASCII literal.
\<close>

type_synonym codepoint = nat
type_synonym str = "codepoint list"

definition ustr :: "string \<Rightarrow> str" where
  "ustr s = map of_char s"

text \<open>
  \<^verbatim>\<open>str.isspace\<close>, \<^verbatim>\<open>str.strip()\<close> and the class \<^verbatim>\<open>\s\<close> of \<^verbatim>\<open>re\<close> on a
  \<^verbatim>\<open>str\<close> pattern share one set of white space: U+0009..U+000D, U+001C..U+001F,
  U+0020, U+0085, U+00A0, U+1680, U+2000..U+200A, U+2028, U+2029, U+202F, U+205F, U+3000.
\<close>

definition isspace :: "codepoint \<Rightarrow> bool" where
  "isspace c \<longleftrightarrow>
     (9 \<le> c \<and> c \<le> 13) \<or> (28 \<le> c \<and> c \<le> 31) \<or> c = 32 \<or> c = 133 \<or> c = 160 \<or>
     c = 5760 \<or> (8192 \<le> c \<and> c \<le> 8202) \<or> c = 8232 \<or> c = 8233 \<or> c = 8239 \<or>
     c = 8287 \<or> c = 12288"

text \<open>
  \<^verbatim>\<open>str.lower()\<close>. An ASCII capital goes to its small letter. Two code points
  beyond ASCII lower-case into ASCII: U+0130 (to \<open>i\<close> followed by U+0307) and the Kelvin
  sign U+212A (to \<open>k\<close>). Every other cased code point beyond ASCII goes to code points
  beyond ASCII that are not white space; \<open>preprocess\<close> deletes them in its next step
  whatever they are, so they stand for themselves here. White space is uncased.
\<close>

definition lower_cp :: "codepoint \<Rightarrow> str" where
  "lower_cp c =
     (if 65 \<le> c \<and> c \<le> 90 then [c + 32]
      else if c = 304 then [105, 775]
      else if c = 8490 then [107]
      else [c])"

definition lower :: "str \<Rightarrow> str" where
  "lower s = concat (map lower_cp s)"

definition strip :: "str \<Rightarrow> str" where
  "strip s = rev (dropWhile isspace (rev (dropWhile isspace s)))"

text \<open>The class \<^verbatim>\<open>[^a-z0-9\s]\<close> matches what \<open>keep_cp\<close> rejects.\<close>

definition keep_cp :: "codepoint \<Rightarrow> bool" where
  "keep_cp c \<longleftrightarrow> (97 \<le> c \<and> c \<le> 122) \<or> (48 \<le> c \<and> c \<le> 57) \<or> isspace c"

definition remove_punct :: "str \<Rightarrow> str" where
  "remove_punct s = filter keep_cp s"

text \<open>\<^verbatim>\<open>re.sub(r"\s+", " ", s)\<close>: every maximal run of white space becomes one U+0020.\<close>

function collapse_ws :: "str \<Rightarrow> str" where
  "collapse_ws [] = []"
| "collapse_ws (c # cs) =
     (if isspace c then 32 # collapse_ws (dropWhile isspace cs) else c # collapse_ws cs)"
  by pat_completeness auto
termination
  by (relation "measure length") (auto simp: length_dropWhile_le less_Suc_eq_le)

text \<open>
  \<^verbatim>\<open>Matcher._preprocess\<close> on a \<^verbatim>\<open>str\<close>: lower-case, strip, delete what is neither
  \<^verbatim>\<open>[a-z0-9]\<close> nor white space, collapse the runs of white space. (\<^verbatim>\<open>s or ""\<close> is the
  string itself for a \<^verbatim>\<open>str\<close>; other values are handled by \<open>preprocess_value\<close>.)
\<close>

definition preprocess :: "str \<Rightarrow> str" where
  "preprocess s = collapse_ws (remove_punct (strip (lower s)))"

section \<open>The similarity ratio: \<^verbatim>\<open>difflib.SequenceMatcher(None, a, b).ratio()\<close>\<close>

text \<open>
  \<open>find_best\<close> scores a pair of strings with the standard library's
  \<^verbatim>\<open>SequenceMatcher\<close>, built with no junk predicate and the default
  \<^verbatim>\<open>autojunk=True\<close>. The functions below follow CPython's \<^verbatim>\<open>difflib\<close>.

  \<^verbatim>\<open>__chain_b\<close> builds \<^verbatim>\<open>b2j\<close>, which maps every element of \<open>b\<close> to the
  increasing list of its positions; when \<open>b\<close> has at least 200 elements, the elements
  occurring more than \<^verbatim>\<open>len(b) // 100 + 1\<close> times are deleted from it. \<open>chain_b b elt\<close>
  is \<^verbatim>\<open>b2j.get(elt, [])\<close>. With no junk predicate the junk set stays empty.
\<close>

definition indices_of :: "codepoint \<Rightarrow> str \<Rightarrow> nat list" where
  "indices_of elt b = [j \<leftarrow> [0..<length b]. b ! j = elt]"

definition chain_b :: "str \<Rightarrow> codepoint \<Rightarrow> nat list" where
  "chain_b b elt =
     (let idxs = indices_of elt b; n = length b
      in if n \<ge> 200 \<and> length idxs > n div 100 + 1 then [] else idxs)"

text \<open>
  \<^verbatim>\<open>find_longest_match\<close>, inner loop: for a fixed \<open>i\<close>, over the positions
  \<open>j\<close> of \<^verbatim>\<open>a[i]\<close> in \<open>b\<close>. \<^verbatim>\<open>j2len.get(j-1, 0)\<close> is \<open>0\<close> at \<open>j = 0\<close>,
  since no key is negative. The indices are natural numbers; \<^verbatim>\<open>i-k+1\<close> is written
  \<open>i + 1 - k\<close>.
\<close>

fun flm_inner ::
  "nat \<Rightarrow> nat \<Rightarrow> nat \<Rightarrow> (nat \<rightharpoonup> nat) \<Rightarrow> nat list \<Rightarrow>
   (nat \<rightharpoonup> nat) \<times> nat \<times> nat \<times> nat \<Rightarrow> (nat \<rightharpoonup> nat) \<times> nat \<times> nat \<times> nat" where
  "flm_inner i blo bhi j2len [] st = st"
| "flm_inner i blo bhi j2len (j # js) (newj2len, besti, bestj, bestsize) =
     (if j < blo then flm_inner i blo bhi j2len js (newj2len, besti, bestj, bestsize)
      else if j \<ge> bhi then (newj2len, besti, bestj, bestsize)
      else
        let k = (case (if j = 0 then None else j2len (j - 1)) of None \<Rightarrow> 0 | Some v \<Rightarrow> v) + 1
        in if k > bestsize
           then flm_inner i blo bhi j2len js (newj2len(j \<mapsto> k), i + 1 - k, j + 1 - k, k)
           else flm_inner i blo bhi j2len js (newj2len(j \<mapsto> k), besti, bestj, bestsize))"

text \<open>The outer loop \<^verbatim>\<open>for i in range(alo, ahi)\<close>, with a fresh \<^verbatim>\<open>newj2len\<close> each round.\<close>

fun flm_outer ::
  "str \<Rightarrow> (codepoint \<Rightarrow> nat list) \<Rightarrow> nat \<Rightarrow> nat \<Rightarrow> nat list \<Rightarrow>
   (nat \<rightharpoonup> nat) \<times> nat \<times> nat \<times> nat \<Rightarrow> nat \<times> nat \<times> nat" where
  "flm_outer a b2j blo bhi [] (j2len, besti, bestj, bestsize) = (besti, bestj, bestsize)"
| "flm_outer a b2j blo bhi (i # is) (j2len, besti, bestj, bestsize) =
     flm_outer a b2j blo bhi is
       (flm_inner i blo bhi j2len (b2j (a ! i)) (Map.empty, besti, bestj, bestsize))"

text \<open>
  The two loops that extend the match at each end. (\<^verbatim>\<open>not isbjunk(...)\<close> holds, the
  junk set being empty; for the same reason the two further loops over junk elements
  never run, and are left out.)
\<close>

function extend_left :: "str \<Rightarrow> str \<Rightarrow> nat \<Rightarrow> nat \<Rightarrow> nat \<times> nat \<times> nat \<Rightarrow> nat \<times> nat \<times> nat" where
  "extend_left a b alo blo (besti, bestj, bestsize) =
     (if besti > alo \<and> bestj > blo \<and> a ! (besti - 1) = b ! (bestj - 1)
      then extend_left a b alo blo (besti - 1, bestj - 1, bestsize + 1)
      else (besti, bestj, bestsize))"
  by pat_completeness auto
termination
  by (relation "measure (\<lambda>(a, b, alo, blo, besti, bestj, bestsize). besti)") auto

function extend_right :: "str \<Rightarrow> str \<Rightarrow> nat \<Rightarrow> nat \<Rightarrow> nat \<times> nat \<times> nat \<Rightarrow> nat \<times> nat \<times> nat" where
  "extend_right a b ahi bhi (besti, bestj, bestsize) =
     (if besti + bestsize < ahi \<and> bestj + bestsize < bhi \<and>
         a ! (besti + bestsize) = b ! (bestj + bestsize)
      then extend_right a b ahi bhi (besti, bestj, bestsize + 1)
      else (besti, bestj, bestsize))"
  by pat_completeness auto
termination
  by (relation "measure (\<lambda>(a, b, ahi, bhi, besti, bestj, bestsize). ahi - (besti + bestsize))") auto

definition find_longest_match :: "str \<Rightarrow> str \<Rightarrow> nat \<Rightarrow> nat \<Rightarrow> nat \<Rightarrow> nat \<Rightarrow> nat \<times> nat \<times> nat" where
  "find_longest_match a b alo ahi blo bhi =
     extend_right a b ahi bhi
       (extend_left a b alo blo
          (flm_outer a (chain_b b) blo bhi [alo..<ahi] (Map.empty, alo, blo, 0)))"


text \<open>
  What the termination of \<^verbatim>\<open>get_matching_blocks\<close> needs from
  \<open>find_longest_match\<close>: a non-empty match starts before \<open>ahi\<close> and ends after \<open>alo\<close>.
\<close>

definition flm_inv :: "nat \<Rightarrow> nat \<Rightarrow> nat \<Rightarrow> nat \<Rightarrow> bool" where
  "flm_inv alo ahi besti bestsize \<longleftrightarrow>
     (if bestsize = 0 then besti = alo else besti < ahi \<and> alo < besti + bestsize)"

lemma flm_inner_inv:
  assumes "alo \<le> i" "i < ahi" "flm_inv alo ahi besti bestsize"
    and "flm_inner i blo bhi j2len js (n, besti, bestj, bestsize) = (n', besti', bestj', bestsize')"
  shows "flm_inv alo ahi besti' bestsize'"
  using assms
proof (induction js arbitrary: n besti bestj bestsize)
  case Nil
  then show ?case by simp
next
  case (Cons j js)
  show ?case
  proof (cases "j < blo")
    case True
    with Cons.prems(4) have "flm_inner i blo bhi j2len js (n, besti, bestj, bestsize) = (n', besti', bestj', bestsize')"
      by simp
    with Cons.IH Cons.prems(1-3) show ?thesis by blast
  next
    case nlo: False
    show ?thesis
    proof (cases "j \<ge> bhi")
      case True
      with nlo Cons.prems(3,4) show ?thesis by simp
    next
      case False
      define k where "k = (case (if j = 0 then None else j2len (j - 1)) of None \<Rightarrow> 0 | Some v \<Rightarrow> v) + 1"
      have kpos: "k > 0" by (simp add: k_def)
      show ?thesis
      proof (cases "k > bestsize")
        case True
        with nlo False Cons.prems(4)
        have e: "flm_inner i blo bhi j2len js (n(j \<mapsto> k), i + 1 - k, j + 1 - k, k) = (n', besti', bestj', bestsize')"
          by (simp add: k_def Let_def)
        have "flm_inv alo ahi (i + 1 - k) k"
          using kpos Cons.prems(1,2) by (auto simp: flm_inv_def)
        with Cons.IH[OF Cons.prems(1,2) _ e] show ?thesis .
      next
        case nk: False
        with nlo False Cons.prems(4)
        have e: "flm_inner i blo bhi j2len js (n(j \<mapsto> k), besti, bestj, bestsize) = (n', besti', bestj', bestsize')"
          by (simp add: k_def Let_def)
        from Cons.IH[OF Cons.prems(1-3) e] show ?thesis .
      qed
    qed
  qed
qed

lemma flm_outer_inv:
  assumes "\<forall>i\<in>set is. alo \<le> i \<and> i < ahi" "flm_inv alo ahi besti bestsize"
    and "flm_outer a b2j blo bhi is (j2len, besti, bestj, bestsize) = (besti', bestj', bestsize')"
  shows "flm_inv alo ahi besti' bestsize'"
  using assms
proof (induction "is" arbitrary: j2len besti bestj bestsize)
  case Nil
  then show ?case by simp
next
  case (Cons i "is")
  obtain n bi bj bs where
    st: "flm_inner i blo bhi j2len (b2j (a ! i)) (Map.empty, besti, bestj, bestsize) = (n, bi, bj, bs)"
    by (metis prod_cases4)
  have "alo \<le> i" "i < ahi" using Cons.prems(1) by auto
  then have inv: "flm_inv alo ahi bi bs" using Cons.prems(2) st by (rule flm_inner_inv)
  have "flm_outer a b2j blo bhi is (n, bi, bj, bs) = (besti', bestj', bestsize')"
    using Cons.prems(3) st by simp
  with Cons.IH inv Cons.prems(1) show ?case by auto
qed

lemma extend_left_inv:
  "flm_inv alo ahi besti bestsize \<Longrightarrow>
   extend_left a b alo blo (besti, bestj, bestsize) = (besti', bestj', bestsize') \<Longrightarrow>
   flm_inv alo ahi besti' bestsize'"
proof (induction a b alo blo "(besti, bestj, bestsize)" arbitrary: besti bestj bestsize
       rule: extend_left.induct)
  case (1 a b alo blo besti bestj bestsize)
  show ?case
  proof (cases "besti > alo \<and> bestj > blo \<and> a ! (besti - 1) = b ! (bestj - 1)")
    case True
    have "flm_inv alo ahi (besti - 1) (bestsize + 1)"
      using True "1.prems"(1) by (auto simp: flm_inv_def split: if_splits)
    moreover have "extend_left a b alo blo (besti - 1, bestj - 1, bestsize + 1) = (besti', bestj', bestsize')"
      using True "1.prems"(2) by simp
    ultimately show ?thesis using "1.hyps" True by blast
  next
    case False
    with "1.prems" show ?thesis by auto
  qed
qed

lemma extend_right_inv:
  "flm_inv alo ahi besti bestsize \<Longrightarrow>
   extend_right a b ahi bhi (besti, bestj, bestsize) = (besti', bestj', bestsize') \<Longrightarrow>
   flm_inv alo ahi besti' bestsize'"
proof (induction a b ahi bhi "(besti, bestj, bestsize)" arbitrary: besti bestj bestsize
       rule: extend_right.induct)
  case (1 a b ahi bhi besti bestj bestsize)
  show ?case
  proof (cases "besti + bestsize < ahi \<and> bestj + bestsize < bhi \<and>
         a ! (besti + bestsize) = b ! (bestj + bestsize)")
    case True
    have "flm_inv alo ahi besti (bestsize + 1)"
      using True "1.prems"(1) by (auto simp: flm_inv_def split: if_splits)
    moreover have "extend_right a b ahi bhi (besti, bestj, bestsize + 1) = (besti', bestj', bestsize')"
      using True "1.prems"(2) by simp
    ultimately show ?thesis using "1.hyps" True by blast
  next
    case False
    with "1.prems" show ?thesis by auto
  qed
qed

lemma find_longest_match_inv:
  assumes "find_longest_match a b alo ahi blo bhi = (i, j, k)"
  shows "flm_inv alo ahi i k"
proof -
  obtain i1 j1 k1 where o: "flm_outer a (chain_b b) blo bhi [alo..<ahi] (Map.empty, alo, blo, 0) = (i1, j1, k1)"
    by (metis prod_cases3)
  obtain i2 j2 k2 where l: "extend_left a b alo blo (i1, j1, k1) = (i2, j2, k2)"
    by (metis prod_cases3)
  have r: "extend_right a b ahi bhi (i2, j2, k2) = (i, j, k)"
    using assms o l by (simp add: find_longest_match_def)
  have "flm_inv alo ahi alo 0" by (simp add: flm_inv_def)
  then have "flm_inv alo ahi i1 k1" using o by (intro flm_outer_inv[OF _ _ o]) auto
  then have "flm_inv alo ahi i2 k2" using l by (rule extend_left_inv)
  then show ?thesis using r by (rule extend_right_inv)
qed

text \<open>
  \<^verbatim>\<open>get_matching_blocks\<close>: the loop over the queue of pending ranges. The queue is a
  stack (\<^verbatim>\<open>queue.pop()\<close> takes the last element pushed); its top is the head of the
  list here. \<open>queue_weight\<close> is the measure of the termination proof.
\<close>

definition queue_weight :: "(nat \<times> nat \<times> nat \<times> nat) list \<Rightarrow> nat" where
  "queue_weight queue = sum_list (map (\<lambda>(alo, ahi, blo, bhi). 3 ^ (ahi - alo)) queue)"

function gmb_loop ::
  "str \<Rightarrow> str \<Rightarrow> (nat \<times> nat \<times> nat \<times> nat) list \<Rightarrow> (nat \<times> nat \<times> nat) list \<Rightarrow> (nat \<times> nat \<times> nat) list" where
  "gmb_loop a b [] matching_blocks = matching_blocks"
| "gmb_loop a b ((alo, ahi, blo, bhi) # queue) matching_blocks =
     (case find_longest_match a b alo ahi blo bhi of (i, j, k) \<Rightarrow>
        if k \<noteq> 0
        then gmb_loop a b
               ((if i + k < ahi \<and> j + k < bhi then [(i + k, ahi, j + k, bhi)] else []) @
                (if alo < i \<and> blo < j then [(alo, i, blo, j)] else []) @ queue)
               (matching_blocks @ [(i, j, k)])
        else gmb_loop a b queue matching_blocks)"
  by pat_completeness auto

lemma pow3_split:
  assumes "x < (n::nat)" "y < n"
  shows "(3::nat) ^ x + 3 ^ y < 3 ^ n"
proof -
  obtain m where n: "n = Suc m" using assms(1) by (cases n) auto
  have "x \<le> m" "y \<le> m" using assms n by auto
  then have "(3::nat) ^ x \<le> 3 ^ m" "(3::nat) ^ y \<le> 3 ^ m"
    by (simp_all add: power_increasing)
  then have "(3::nat) ^ x + 3 ^ y \<le> 3 ^ m + 3 ^ m" by (rule add_mono)
  also have "\<dots> < 3 * 3 ^ m" by simp
  finally show ?thesis unfolding n by simp
qed

lemma gmb_step_decreases:
  assumes flm: "(i, j, k) = find_longest_match a b alo ahi blo bhi" and k: "k \<noteq> 0"
  shows "queue_weight
           ((if i + k < ahi \<and> j + k < bhi then [(i + k, ahi, j + k, bhi)] else []) @
            (if alo < i \<and> blo < j then [(alo, i, blo, j)] else []) @ queue)
         < queue_weight ((alo, ahi, blo, bhi) # queue)"
proof -
  from find_longest_match_inv[OF flm[symmetric]] k have b: "i < ahi" "alo < i + k"
    by (auto simp: flm_inv_def)
  have l: "i - alo < ahi - alo" if "alo < i" using that b by arith
  have r: "ahi - (i + k) < ahi - alo" if "i + k < ahi" using that b by arith
  have p: "(0::nat) < 3 ^ (ahi - alo)" by simp
  have one: "(3::nat) ^ (i - alo) < 3 ^ (ahi - alo)" if "alo < i"
    using l[OF that] by (simp add: power_strict_increasing)
  have two: "(3::nat) ^ (ahi - (i + k)) < 3 ^ (ahi - alo)" if "i + k < ahi"
    using r[OF that] by (simp add: power_strict_increasing)
  have both: "(3::nat) ^ (ahi - (i + k)) + 3 ^ (i - alo) < 3 ^ (ahi - alo)"
    if "alo < i" "i + k < ahi"
    using pow3_split[OF r l] that by simp
  show ?thesis
    using one two both p by (auto simp: queue_weight_def)
qed

termination gmb_loop
proof (relation "measure (\<lambda>(a, b, queue, mb). queue_weight queue)", goal_cases)
  case 1
  show ?case by simp
next
  case (2 a b alo ahi blo bhi queue mb i y j k)
  then show ?case
    using gmb_step_decreases[of i j k a b alo ahi blo bhi queue] by simp
next
  case 3
  show ?case by (simp add: queue_weight_def)
qed

text \<open>
  The blocks are sorted (tuples compare lexicographically), adjacent blocks are merged,
  and the sentinel \<^verbatim>\<open>(la, lb, 0)\<close> is appended.
\<close>

fun collapse_adjacent :: "(nat \<times> nat \<times> nat) list \<Rightarrow> nat \<times> nat \<times> nat \<Rightarrow> (nat \<times> nat \<times> nat) list" where
  "collapse_adjacent [] (i1, j1, k1) = (if k1 \<noteq> 0 then [(i1, j1, k1)] else [])"
| "collapse_adjacent ((i2, j2, k2) # rest) (i1, j1, k1) =
     (if i1 + k1 = i2 \<and> j1 + k1 = j2 then collapse_adjacent rest (i1, j1, k1 + k2)
      else (if k1 \<noteq> 0 then [(i1, j1, k1)] else []) @ collapse_adjacent rest (i2, j2, k2))"

definition get_matching_blocks :: "str \<Rightarrow> str \<Rightarrow> (nat \<times> nat \<times> nat) list" where
  "get_matching_blocks a b =
     (let la = length a; lb = length b;
          matching_blocks = sort (gmb_loop a b [(0, la, 0, lb)] [])
      in collapse_adjacent matching_blocks (0, 0, 0) @ [(la, lb, 0)])"

text \<open>
  \<^verbatim>\<open>_calculate_ratio\<close> returns the float \<^verbatim>\<open>2.0 * matches / length\<close>, or \<^verbatim>\<open>1.0\<close>
  when \<open>length\<close> is zero. Scores and the cut-off are exact rationals here: the float
  is the correctly rounded quotient of two integers, and rounding keeps the order of two
  such quotients (and of a quotient and a decimal literal such as \<^verbatim>\<open>0.55\<close>) unless the
  product of their denominators exceeds \<open>2^52\<close>, which strings of this kind do not reach.
\<close>

definition calculate_ratio :: "nat \<Rightarrow> nat \<Rightarrow> rat" where
  "calculate_ratio matches len = (if len \<noteq> 0 then 2 * of_nat matches / of_nat len else 1)"

definition ratio :: "str \<Rightarrow> str \<Rightarrow> rat" where
  "ratio a b =
     (let matches = sum_list (map (\<lambda>(i, j, k). k) (get_matching_blocks a b))
      in calculate_ratio matches (length a + length b))"

section \<open>JSON values and the errors of Python\<close>

text \<open>
  \<^verbatim>\<open>json.load\<close> returns a dynamically typed value. A \<^verbatim>\<open>dict\<close> is the list of its
  items in insertion order, looked up with \<open>map_of\<close>.
\<close>

datatype json =
    JNull
  | JBool bool
  | JNum rat
  | JStr str
  | JArr "json list"
  | JObj "(str \<times> json) list"

datatype py_error =
    OSError | JSONDecodeError | UnicodeDecodeError
  | TypeError | AttributeError | KeyError | IndexError

text \<open>Truth value testing, as \<^verbatim>\<open>s or ""\<close> uses it.\<close>

fun truthy :: "json \<Rightarrow> bool" where
  "truthy JNull = False"
| "truthy (JBool b) = b"
| "truthy (JNum r) = (r \<noteq> 0)"
| "truthy (JStr s) = (s \<noteq> [])"
| "truthy (JArr xs) = (xs \<noteq> [])"
| "truthy (JObj kvs) = (kvs \<noteq> [])"

text \<open>\<^verbatim>\<open>for item in v\<close>: a list gives its elements, a dict its keys, a string its
  characters; nothing else is iterable.\<close>

fun py_iter :: "json \<Rightarrow> py_error + json list" where
  "py_iter (JArr xs) = Inr xs"
| "py_iter (JObj kvs) = Inr (map (\<lambda>(k, v). JStr k) kvs)"
| "py_iter (JStr s) = Inr (map (\<lambda>c. JStr [c]) s)"
| "py_iter _ = Inl TypeError"

text \<open>\<^verbatim>\<open>item.get(key, dflt)\<close>: only a dict has the method.\<close>

fun py_get :: "json \<Rightarrow> str \<Rightarrow> json \<Rightarrow> py_error + json" where
  "py_get (JObj kvs) key dflt =
     Inr (case map_of kvs key of None \<Rightarrow> dflt | Some v \<Rightarrow> v)"
| "py_get _ key dflt = Inl AttributeError"

text \<open>\<^verbatim>\<open>xs[i]\<close> on a list; an index from \<open>-len(xs)\<close> to \<open>-1\<close> counts from the end.\<close>

definition list_getitem :: "'a list \<Rightarrow> int \<Rightarrow> py_error + 'a" where
  "list_getitem xs i =
     (if 0 \<le> i \<and> i < int (length xs) then Inr (xs ! nat i)
      else if i < 0 \<and> - int (length xs) \<le> i then Inr (xs ! nat (int (length xs) + i))
      else Inl IndexError)"

text \<open>\<^verbatim>\<open>v[i]\<close> for an integer \<open>i\<close>. The keys of a JSON object are strings, so an
  integer is never one of them.\<close>

fun getitem_int :: "json \<Rightarrow> int \<Rightarrow> py_error + json" where
  "getitem_int (JArr xs) i = list_getitem xs i"
| "getitem_int (JStr s) i = map_sum id (\<lambda>c. JStr [c]) (list_getitem s i)"
| "getitem_int (JObj kvs) i = Inl KeyError"
| "getitem_int _ i = Inl TypeError"

text \<open>\<^verbatim>\<open>v[key]\<close> for a string \<open>key\<close>.\<close>

fun getitem_str :: "json \<Rightarrow> str \<Rightarrow> py_error + json" where
  "getitem_str (JObj kvs) key =
     (case map_of kvs key of None \<Rightarrow> Inl KeyError | Some v \<Rightarrow> Inr v)"
| "getitem_str _ key = Inl TypeError"

text \<open>A list comprehension whose element expression may raise: the first error, in
  order, ends it.\<close>

fun comprehension :: "('a \<Rightarrow> py_error + 'b) \<Rightarrow> 'a list \<Rightarrow> py_error + 'b list" where
  "comprehension f [] = Inr []"
| "comprehension f (x # xs) =
     (case f x of
        Inl e \<Rightarrow> Inl e
      | Inr y \<Rightarrow> (case comprehension f xs of Inl e \<Rightarrow> Inl e | Inr ys \<Rightarrow> Inr (y # ys)))"

section \<open>The matcher\<close>

text \<open>
  The attributes of a \<^verbatim>\<open>Matcher\<close>. \<open>kb_path\<close> is the path after
  \<^verbatim>\<open>os.path.join(HERE, kb_path)\<close>.
\<close>

record matcher =
  kb_path :: str
  cutoff :: rat
  kb :: json
  questions :: "json list"
  questions_proc :: "str list"

text \<open>
  \<^verbatim>\<open>_preprocess\<close> on a value of any type, as \<^verbatim>\<open>_load_kb\<close> calls it on what
  \<^verbatim>\<open>item.get("question", "")\<close> returned: \<^verbatim>\<open>(s or "")\<close> replaces a false value by the
  empty string, and \<^verbatim>\<open>.lower()\<close> exists on strings only.
\<close>

definition preprocess_value :: "json \<Rightarrow> py_error + str" where
  "preprocess_value s =
     (case (if truthy s then s else JStr []) of
        JStr t \<Rightarrow> Inr (preprocess t)
      | _ \<Rightarrow> Inl AttributeError)"

text \<open>
  \<^verbatim>\<open>_load_kb\<close>. The file system is the function \<open>fs\<close>: \<open>fs path\<close> is what
  \<^verbatim>\<open>open(path)\<close> followed by \<^verbatim>\<open>json.load(f)\<close> gives, the parsed value or the error
  raised. The result is the exception that left the method, if any, and the attributes
  afterwards: each assignment to \<^verbatim>\<open>self\<close> takes effect when it is reached.
\<close>

definition load_kb :: "(str \<Rightarrow> py_error + json) \<Rightarrow> matcher \<Rightarrow> py_error option \<times> matcher" where
  "load_kb fs self =
     (case fs (kb_path self) of
        Inl e \<Rightarrow> (Some e, self)
      | Inr v \<Rightarrow>
          let self1 = self\<lparr>kb := v\<rparr> in
          (case py_iter v of
             Inl e \<Rightarrow> (Some e, self1)
           | Inr items \<Rightarrow>
               (case comprehension (\<lambda>item. py_get item (ustr ''question'') (JStr [])) items of
                  Inl e \<Rightarrow> (Some e, self1)
                | Inr qs \<Rightarrow>
                    let self2 = self1\<lparr>questions := qs\<rparr> in
                    (case comprehension preprocess_value qs of
                       Inl e \<Rightarrow> (Some e, self2)
                     | Inr ps \<Rightarrow> (None, self2\<lparr>questions_proc := ps\<rparr>)))))"

definition reload_kb :: "(str \<Rightarrow> py_error + json) \<Rightarrow> matcher \<Rightarrow> py_error option \<times> matcher" where
  "reload_kb fs self = load_kb fs self"

text \<open>
  \<^verbatim>\<open>__init__\<close>. Before \<^verbatim>\<open>_load_kb\<close> runs the three loaded attributes do not exist;
  they are placeholders here, which a load that succeeds overwrites. When the load
  raises, the constructor raises and no matcher exists.
\<close>

definition Matcher_init :: "(str \<Rightarrow> py_error + json) \<Rightarrow> str \<Rightarrow> rat \<Rightarrow> py_error + matcher" where
  "Matcher_init fs path c =
     (case load_kb fs \<lparr>kb_path = path, cutoff = c, kb = JNull, questions = [], questions_proc = []\<rparr> of
        (Some e, self) \<Rightarrow> Inl e
      | (None, self) \<Rightarrow> Inr self)"

text \<open>
  The loop of \<^verbatim>\<open>find_best\<close> over \<^verbatim>\<open>enumerate(self._questions_proc)\<close>; \<open>i\<close> is the index
  of the head of the list. \<open>best_idx\<close> is an integer, \<open>-1\<close> while no score was
  strictly above \<open>best_score\<close>.
\<close>

fun scan :: "str \<Rightarrow> str list \<Rightarrow> nat \<Rightarrow> int \<times> rat \<Rightarrow> int \<times> rat" where
  "scan q [] i (best_idx, best_score) = (best_idx, best_score)"
| "scan q (q_proc # rest) i (best_idx, best_score) =
     (let score = ratio q q_proc
      in if score > best_score then scan q rest (i + 1) (int i, score)
         else scan q rest (i + 1) (best_idx, best_score))"

text \<open>
  \<^verbatim>\<open>find_best\<close>. The tuple of the confident branch is built left to right: the answer
  \<^verbatim>\<open>self.kb[best_idx]["answer"]\<close> first, then \<^verbatim>\<open>self.questions[best_idx]\<close>.
\<close>

definition find_best :: "matcher \<Rightarrow> str \<Rightarrow> py_error + (json \<times> json \<times> rat)" where
  "find_best self query =
     (let q = preprocess query;
          (best_idx, best_score) = scan q (questions_proc self) 0 (- 1, 0)
      in if best_idx \<noteq> - 1 \<and> best_score \<ge> cutoff self
         then (case getitem_int (kb self) best_idx of
                 Inl e \<Rightarrow> Inl e
               | Inr item \<Rightarrow>
                   (case getitem_str item (ustr ''answer'') of
                      Inl e \<Rightarrow> Inl e
                    | Inr answer \<Rightarrow>
                        (case list_getitem (questions self) best_idx of
                           Inl e \<Rightarrow> Inl e
                         | Inr matched \<Rightarrow> Inr (answer, matched, best_score))))
         else if best_idx \<noteq> - 1
         then (case list_getitem (questions self) best_idx of
                 Inl e \<Rightarrow> Inl e
               | Inr matched \<Rightarrow> Inr (JStr [], matched, best_score))
         else Inr (JStr [], JStr [], best_score))"

definition get_answer_with_score :: "matcher \<Rightarrow> str \<Rightarrow> py_error + (json \<times> json \<times> rat)" where
  "get_answer_with_score self query =
     (case find_best self query of
        Inl e \<Rightarrow> Inl e
      | Inr (answer, matched_q, score) \<Rightarrow> Inr (answer, matched_q, score))"

text \<open>
  The invariant of the loaded attributes: the knowledge base is iterable, and the two
  caches hold, position by position, the question of each entry and its normal form.
\<close>

definition cache_parallel :: "matcher \<Rightarrow> bool" where
  "cache_parallel self =
     (case py_iter (kb self) of
        Inl e \<Rightarrow> False
      | Inr items \<Rightarrow>
          comprehension (\<lambda>item. py_get item (ustr ''question'') (JStr [])) items
            = Inr (questions self) \<and>
          comprehension preprocess_value (questions self) = Inr (questions_proc self) \<and>
          length (questions_proc self) = length items)"

text \<open>A string whose white space is single U+0020 characters: what \<open>collapse_ws\<close> returns.\<close>

fun single_spaced :: "str \<Rightarrow> bool" where
  "single_spaced [] = True"
| "single_spaced [c] = (isspace c \<longrightarrow> c = 32)"
| "single_spaced (c # d # cs) =
     ((isspace c \<longrightarrow> c = 32 \<and> \<not> isspace d) \<and> single_spaced (d # cs))"

section \<open>Concrete inputs\<close>

text \<open>
  A knowledge-base entry with both keys, the attributes of a matcher under construction
  (path \<^verbatim>\<open>kb.json\<close>, the default cut-off \<^verbatim>\<open>0.55\<close>), and a file system that holds
  one parsed value at every path.
\<close>

definition entry :: "string \<Rightarrow> string \<Rightarrow> json" where
  "entry q a = JObj [(ustr ''question'', JStr (ustr q)), (ustr ''answer'', JStr (ustr a))]"

definition fresh :: matcher where
  "fresh = \<lparr>kb_path = ustr ''kb.json'', cutoff = 11 / 20, kb = JNull, questions = [],
            questions_proc = []\<rparr>"

definition holds :: "json \<Rightarrow> str \<Rightarrow> py_error + json" where
  "holds v path = Inr v"

definition loaded :: "json \<Rightarrow> json list \<Rightarrow> str list \<Rightarrow> matcher" where
  "loaded v qs ps = \<lparr>kb_path = ustr ''kb.json'', cutoff = 11 / 20, kb = v, questions = qs,
                     questions_proc = ps\<rparr>"

section \<open>Properties of the normalizer\<close>

lemma single_spaced_collapse: "single_spaced (collapse_ws s)"
proof (induction s rule: collapse_ws.induct)
  case 1 show ?case by simp
next
  case (2 c cs)
  show ?case
  proof (cases "isspace c")
    case True
    have "single_spaced (32 # collapse_ws (dropWhile isspace cs))"
    proof (cases "dropWhile isspace cs")
      case Nil
      have "single_spaced [32]" by (simp add: isspace_def)
      then show ?thesis unfolding Nil by simp
    next
      case (Cons d ds)
      then have "\<not> isspace d" by (metis hd_dropWhile list.sel(1) list.distinct(1))
      with Cons 2(1)[OF True] show ?thesis by simp
    qed
    with True show ?thesis by simp
  next
    case False
    with 2(2) show ?thesis by (cases "collapse_ws cs") auto
  qed
qed

lemma collapse_id: "single_spaced s \<Longrightarrow> collapse_ws s = s"
proof (induction s rule: single_spaced.induct)
  case 1 show ?case by simp
next
  case (2 c) then show ?case by simp
next
  case (3 c d cs)
  then show ?case by auto
qed

lemma set_collapse: "set (collapse_ws s) \<subseteq> insert 32 (set s)"
proof (induction s rule: collapse_ws.induct)
  case 1 show ?case by simp
next
  case (2 c cs)
  have "set (dropWhile isspace cs) \<subseteq> set cs" by (rule set_dropWhileD[THEN subsetI]) 
  with 2 show ?case by auto
qed

lemma single_spaced_tl: "single_spaced (c # cs) \<Longrightarrow> single_spaced cs"
  by (cases cs) auto

lemma single_spaced_dropWhile: "single_spaced s \<Longrightarrow> single_spaced (dropWhile P s)"
  by (induction s) (auto dest: single_spaced_tl)

lemma single_spaced_prefix: "single_spaced (xs @ ys) \<Longrightarrow> single_spaced xs"
proof (induction xs rule: single_spaced.induct)
  case 1 show ?case by simp
next
  case (2 c) then show ?case by (cases ys) auto
next
  case (3 c d cs) then show ?case by auto
qed

lemma strip_prefix: "\<exists>zs. dropWhile isspace s = strip s @ zs"
proof -
  let ?d = "dropWhile isspace s"
  have "rev (rev ?d) = rev (dropWhile isspace (rev ?d)) @ rev (takeWhile isspace (rev ?d))"
    by (metis rev_append takeWhile_dropWhile_id)
  then have "?d = strip s @ rev (takeWhile isspace (rev ?d))"
    by (simp add: strip_def)
  then show ?thesis ..
qed

lemma single_spaced_strip: "single_spaced s \<Longrightarrow> single_spaced (strip s)"
proof -
  assume "single_spaced s"
  then have d: "single_spaced (dropWhile isspace s)" by (rule single_spaced_dropWhile)
  obtain zs where "dropWhile isspace s = strip s @ zs" using strip_prefix by blast
  with d show ?thesis by (metis single_spaced_prefix)
qed

lemma set_strip: "set (strip s) \<subseteq> set s"
proof -
  obtain zs where z: "dropWhile isspace s = strip s @ zs" using strip_prefix by blast
  have "set (strip s) \<subseteq> set (dropWhile isspace s)" unfolding z by simp
  also have "\<dots> \<subseteq> set s" by (auto dest: set_dropWhileD)
  finally show ?thesis .
qed

lemma keep_cp_32: "keep_cp 32" by (simp add: keep_cp_def isspace_def)

lemma keep_preprocess: "c \<in> set (preprocess s) \<Longrightarrow> keep_cp c"
  using set_collapse[of "remove_punct (strip (lower s))"]
  by (auto simp: preprocess_def remove_punct_def keep_cp_32)

lemma lower_cp_plain: "keep_cp c \<Longrightarrow> (isspace c \<longrightarrow> c = 32) \<Longrightarrow> lower_cp c = [c]"
  by (auto simp: keep_cp_def lower_cp_def isspace_def)

lemma single_spaced_space: "single_spaced s \<Longrightarrow> c \<in> set s \<Longrightarrow> isspace c \<Longrightarrow> c = 32"
  by (induction s rule: single_spaced.induct) auto

lemma lower_plain: "\<forall>c\<in>set s. keep_cp c \<Longrightarrow> single_spaced s \<Longrightarrow> lower s = s"
proof -
  assume k: "\<forall>c\<in>set s. keep_cp c" and ss: "single_spaced s"
  have "\<forall>c\<in>set s. lower_cp c = [c]"
    using k ss by (auto intro!: lower_cp_plain dest: single_spaced_space)
  then have "concat (map lower_cp s) = s" by (induction s) auto
  then show ?thesis by (simp add: lower_def)
qed

lemma strip_head: "dropWhile isspace (strip s) = strip s"
proof (cases "strip s")
  case Nil then show ?thesis by simp
next
  case (Cons x xs)
  obtain zs where z: "dropWhile isspace s = strip s @ zs" using strip_prefix by blast
  then have "dropWhile isspace s = x # xs @ zs" using Cons by simp
  then have "\<not> isspace x" by (metis hd_dropWhile list.sel(1) list.distinct(1))
  then show ?thesis using Cons by simp
qed

lemma strip_last: "dropWhile isspace (rev (strip s)) = rev (strip s)"
proof -
  have "rev (strip s) = dropWhile isspace (rev (dropWhile isspace s))" by (simp add: strip_def)
  then show ?thesis by (metis dropWhile_idem)
qed

lemma strip_idem: "strip (strip s) = strip s"
proof -
  have "strip (strip s) = rev (dropWhile isspace (rev (dropWhile isspace (strip s))))"
    by (simp add: strip_def)
  also have "\<dots> = rev (dropWhile isspace (rev (strip s)))" by (simp only: strip_head)
  also have "\<dots> = rev (rev (strip s))" by (simp only: strip_last)
  finally show ?thesis by simp
qed

section \<open>Properties of the scan, the loader and \<open>find_best\<close>\<close>

lemma ustr_eq_iff: "ustr a = ustr b \<longleftrightarrow> a = b"
proof -
  have "inj (of_char :: char \<Rightarrow> nat)" by (rule injI) simp
  then show ?thesis unfolding ustr_def by (rule inj_map_eq_map)
qed

lemma ustr_Nil: "ustr [] = []"
  by (simp add: ustr_def)

lemma ustr_Cons_ne: "ustr (c # cs) \<noteq> []"
  by (simp add: ustr_def)

lemma ratio_nonneg: "0 \<le> ratio a b"
  by (simp add: ratio_def calculate_ratio_def Let_def)

lemma ratio_empty: "ratio [] [] = 1"
  by (simp add: ratio_def calculate_ratio_def Let_def)

lemma scan_no_improve:
  "\<forall>p\<in>set ps. ratio q p \<le> best_score \<Longrightarrow> scan q ps i (best_idx, best_score) = (best_idx, best_score)"
  by (induction ps arbitrary: i) (auto simp: Let_def)

lemma scan_first_max:
  assumes "j < length ps"
    and "\<forall>p\<in>set ps. ratio q p \<le> ratio q (ps ! j)"
    and "\<forall>p\<in>set (take j ps). ratio q p < ratio q (ps ! j)"
    and "best_score < ratio q (ps ! j)"
  shows "scan q ps i (best_idx, best_score) = (int (i + j), ratio q (ps ! j))"
  using assms
proof (induction ps arbitrary: i j best_idx best_score)
  case Nil
  then show ?case by simp
next
  case (Cons p ps)
  show ?case
  proof (cases j)
    case 0
    have "\<forall>p'\<in>set ps. ratio q p' \<le> ratio q p" using Cons.prems(2) 0 by simp
    then have "scan q ps (i + 1) (int i, ratio q p) = (int i, ratio q p)"
      by (rule scan_no_improve)
    then show ?thesis using Cons.prems(4) 0 by (simp add: Let_def)
  next
    case (Suc j')
    have j': "j' < length ps" using Cons.prems(1) Suc by simp
    have mx: "\<forall>p'\<in>set ps. ratio q p' \<le> ratio q (ps ! j')" using Cons.prems(2) Suc by simp
    have fs: "\<forall>p'\<in>set (take j' ps). ratio q p' < ratio q (ps ! j')"
      using Cons.prems(3) Suc by simp
    have lt: "ratio q p < ratio q (ps ! j')" using Cons.prems(3) Suc by simp
    have bs: "best_score < ratio q (ps ! j')" using Cons.prems(4) Suc by simp
    have step: "scan q ps (i + 1) (bi, bs') = (int (i + 1 + j'), ratio q (ps ! j'))"
      if "bs' < ratio q (ps ! j')" for bi bs'
      using Cons.IH[OF j' mx fs that] .
    show ?thesis
    proof (cases "ratio q p > best_score")
      case True
      then show ?thesis using step[OF lt] Suc by (simp add: Let_def)
    next
      case False
      then show ?thesis using step[OF bs] Suc by (simp add: Let_def)
    qed
  qed
qed

lemma comprehension_Inr:
  "comprehension f xs = Inr ys \<Longrightarrow> length ys = length xs \<and> (\<forall>i<length xs. f (xs ! i) = Inr (ys ! i))"
proof (induction xs arbitrary: ys)
  case Nil
  then show ?case by simp
next
  case (Cons x xs)
  from Cons.prems obtain y ys' where y: "f x = Inr y" and ys': "comprehension f xs = Inr ys'"
    and ys: "ys = y # ys'"
    by (auto split: sum.splits)
  from Cons.IH[OF ys'] have l: "length ys' = length xs"
    and a: "\<forall>i<length xs. f (xs ! i) = Inr (ys' ! i)" by auto
  show ?case
  proof (intro conjI allI impI)
    show "length ys = length (x # xs)" using l ys by simp
  next
    fix i assume "i < length (x # xs)"
    then show "f ((x # xs) ! i) = Inr (ys ! i)" using y a ys by (cases i) auto
  qed
qed

lemma py_get_Inr:
  "py_get item key dflt = Inr v \<Longrightarrow>
   \<exists>kvs. item = JObj kvs \<and> v = (case map_of kvs key of None \<Rightarrow> dflt | Some w \<Rightarrow> w)"
  by (cases item) auto

lemma load_kb_read_error:
  "fs (kb_path self) = Inl e \<Longrightarrow> load_kb fs self = (Some e, self)"
  by (simp add: load_kb_def)

lemma load_kb_ok:
  assumes "load_kb fs self = (None, m)"
  shows "\<exists>items. fs (kb_path self) = Inr (kb m) \<and> py_iter (kb m) = Inr items \<and>
           comprehension (\<lambda>item. py_get item (ustr ''question'') (JStr [])) items = Inr (questions m) \<and>
           comprehension preprocess_value (questions m) = Inr (questions_proc m) \<and>
           cutoff m = cutoff self \<and> kb_path m = kb_path self"
  using assms
  by (auto simp: load_kb_def Let_def split: sum.splits)

lemma load_kb_failed:
  assumes "load_kb fs self = (Some e, m)" "fs (kb_path self) = Inr v"
  shows "kb m = v \<and> questions_proc m = questions_proc self \<and>
         cutoff m = cutoff self \<and> kb_path m = kb_path self"
  using assms
  by (auto simp: load_kb_def Let_def split: sum.splits)

lemma loaded_entry:
  assumes loaded: "load_kb fs self = (None, m)" and i: "i < length (questions_proc m)"
  shows "\<exists>items kvs. kb m = JArr items \<and> length items = length (questions_proc m) \<and>
           length (questions m) = length (questions_proc m) \<and> items ! i = JObj kvs \<and>
           questions m ! i = (case map_of kvs (ustr ''question'') of None \<Rightarrow> JStr [] | Some w \<Rightarrow> w) \<and>
           preprocess_value (questions m ! i) = Inr (questions_proc m ! i)"
proof -
  from load_kb_ok[OF loaded] obtain items where
    it: "py_iter (kb m) = Inr items"
    and qs: "comprehension (\<lambda>item. py_get item (ustr ''question'') (JStr [])) items = Inr (questions m)"
    and ps: "comprehension preprocess_value (questions m) = Inr (questions_proc m)"
    by blast
  from comprehension_Inr[OF qs] have lq: "length (questions m) = length items"
    and gq: "\<forall>k<length items. py_get (items ! k) (ustr ''question'') (JStr []) = Inr (questions m ! k)"
    by auto
  from comprehension_Inr[OF ps] have lp: "length (questions_proc m) = length (questions m)"
    and gp: "\<forall>k<length (questions m). preprocess_value (questions m ! k) = Inr (questions_proc m ! k)"
    by auto
  have ii: "i < length items" using i lp lq by simp
  from gq ii have "py_get (items ! i) (ustr ''question'') (JStr []) = Inr (questions m ! i)" by blast
  from py_get_Inr[OF this] obtain kvs where
    obj: "items ! i = JObj kvs"
    and qi: "questions m ! i = (case map_of kvs (ustr ''question'') of None \<Rightarrow> JStr [] | Some w \<Rightarrow> w)"
    by blast
  have arr: "kb m = JArr items"
  proof (cases "kb m")
    case (JArr xs)
    with it show ?thesis by simp
  next
    case (JObj kvs')
    with it have "items = map (\<lambda>(k, v). JStr k) kvs'" by simp
    with ii have "items ! i = (\<lambda>(k, v). JStr k) (kvs' ! i)" by simp
    with obj show ?thesis by (cases "kvs' ! i") simp
  next
    case (JStr s)
    with it have "items = map (\<lambda>c. JStr [c]) s" by simp
    with ii obj show ?thesis by simp
  qed (use it in simp_all)
  from gp i lp have "preprocess_value (questions m ! i) = Inr (questions_proc m ! i)" by simp
  with arr lq lp obj qi show ?thesis by auto
qed

lemma find_best_none:
  assumes "\<forall>p\<in>set (questions_proc self). ratio (preprocess query) p \<le> 0"
  shows "find_best self query = Inr (JStr [], JStr [], 0)"
proof -
  have "scan (preprocess query) (questions_proc self) 0 (- 1, 0) = (- 1, 0)"
    using assms by (rule scan_no_improve)
  then show ?thesis by (simp add: find_best_def)
qed

lemma find_best_first_max:
  assumes i: "i < length (questions_proc self)"
    and mx: "\<forall>p\<in>set (questions_proc self).
               ratio (preprocess query) p \<le> ratio (preprocess query) (questions_proc self ! i)"
    and fst: "\<forall>p\<in>set (take i (questions_proc self)).
               ratio (preprocess query) p < ratio (preprocess query) (questions_proc self ! i)"
    and pos: "0 < ratio (preprocess query) (questions_proc self ! i)"
    and arr: "kb self = JArr items" and li: "i < length items" and lq: "i < length (questions self)"
  shows "find_best self query =
           (if cutoff self \<le> ratio (preprocess query) (questions_proc self ! i)
            then (case getitem_str (items ! i) (ustr ''answer'') of
                    Inl e \<Rightarrow> Inl e
                  | Inr answer \<Rightarrow>
                      Inr (answer, questions self ! i, ratio (preprocess query) (questions_proc self ! i)))
            else Inr (JStr [], questions self ! i, ratio (preprocess query) (questions_proc self ! i)))"
proof -
  have sc: "scan (preprocess query) (questions_proc self) 0 (- 1, 0)
              = (int i, ratio (preprocess query) (questions_proc self ! i))"
    using scan_first_max[OF i mx fst pos, of 0 "- 1"] by simp
  have g1: "getitem_int (kb self) (int i) = Inr (items ! i)"
    using arr li by (simp add: list_getitem_def)
  have g2: "list_getitem (questions self) (int i) = Inr (questions self ! i)"
    using lq by (simp add: list_getitem_def)
  have ne: "int i \<noteq> - 1" by simp
  show ?thesis
    unfolding find_best_def Let_def sc prod.case g1 g2 sum.case
    using ne by (simp split: sum.splits)
qed

lemma load_kb_cache_parallel:
  assumes "load_kb fs self = (None, m)"
  shows "cache_parallel m"
proof -
  from load_kb_ok[OF assms] obtain items where
    it: "py_iter (kb m) = Inr items"
    and qs: "comprehension (\<lambda>item. py_get item (ustr ''question'') (JStr [])) items = Inr (questions m)"
    and ps: "comprehension preprocess_value (questions m) = Inr (questions_proc m)"
    by blast
  from comprehension_Inr[OF qs] comprehension_Inr[OF ps]
  have "length (questions_proc m) = length items" by simp
  with it qs ps show ?thesis by (simp add: cache_parallel_def)
qed

section \<open>Concrete evaluation\<close>

text \<open>
  The normal forms, ratios and loads that the closed theorems below use. The normal
  forms are computed by the simplifier from the definitions, the ratios by evaluating the
  model of \<^verbatim>\<open>difflib\<close>.
\<close>

lemmas preprocess_eval =
  ustr_def preprocess_def lower_def lower_cp_def strip_def remove_punct_def keep_cp_def isspace_def

lemmas load_eval =
  load_kb_def holds_def fresh_def loaded_def entry_def preprocess_value_def Let_def
  ustr_eq_iff ustr_Cons_ne

lemma preprocess_abc: "preprocess (ustr ''abc'') = ustr ''abc''"
  by (simp add: preprocess_eval)

lemma preprocess_abd: "preprocess (ustr ''abd'') = ustr ''abd''"
  by (simp add: preprocess_eval)

lemma preprocess_xyz: "preprocess (ustr ''xyz'') = ustr ''xyz''"
  by (simp add: preprocess_eval)

lemma preprocess_abcd: "preprocess (ustr ''abcd'') = ustr ''abcd''"
  by (simp add: preprocess_eval)

lemma preprocess_bcde: "preprocess (ustr ''bcde'') = ustr ''bcde''"
  by (simp add: preprocess_eval)

lemma preprocess_a11b9: "preprocess (ustr ''aaaaaaaaaaabbbbbbbbb'') = ustr ''aaaaaaaaaaabbbbbbbbb''"
  by (simp add: preprocess_eval)

lemma preprocess_a11c9: "preprocess (ustr ''aaaaaaaaaaaccccccccc'') = ustr ''aaaaaaaaaaaccccccccc''"
  by (simp add: preprocess_eval)

lemma preprocess_cccc: "preprocess (ustr ''cccc'') = ustr ''cccc''"
  by (simp add: preprocess_eval)

lemma preprocess_a: "preprocess (ustr ''a'') = ustr ''a''"
  by (simp add: preprocess_eval)

lemma preprocess_ab: "preprocess (ustr ''ab'') = ustr ''ab''"
  by (simp add: preprocess_eval)

lemma preprocess_ba: "preprocess (ustr ''ba'') = ustr ''ba''"
  by (simp add: preprocess_eval)

lemma ratio_xyz_abc: "ratio (ustr ''xyz'') (ustr ''abc'') = 0"
  by code_simp

lemma ratio_xyz_abd: "ratio (ustr ''xyz'') (ustr ''abd'') = 0"
  by code_simp

lemma ratio_bcde_abcd: "ratio (ustr ''bcde'') (ustr ''abcd'') = 3 / 4"
  by code_simp

lemma ratio_bcde_bcde: "ratio (ustr ''bcde'') (ustr ''bcde'') = 1"
  by code_simp

lemma ratio_a11b9_a11c9:
  "ratio (ustr ''aaaaaaaaaaabbbbbbbbb'') (ustr ''aaaaaaaaaaaccccccccc'') = 11 / 20"
  by code_simp

lemma ratio_cccc_a11c9: "ratio (ustr ''cccc'') (ustr ''aaaaaaaaaaaccccccccc'') = 1 / 3"
  by code_simp

lemma ratio_a_ab: "ratio (ustr ''a'') (ustr ''ab'') = 2 / 3"
  by code_simp

lemma ratio_a_ba: "ratio (ustr ''a'') (ustr ''ba'') = 2 / 3"
  by code_simp

lemma preprocess_dcba: "preprocess (ustr ''dcba'') = ustr ''dcba''"
  by (simp add: preprocess_eval)

lemma ratio_a_abcd: "ratio (ustr ''a'') (ustr ''abcd'') = 2 / 5"
  by code_simp

lemma ratio_a_dcba: "ratio (ustr ''a'') (ustr ''dcba'') = 2 / 5"
  by code_simp

lemma ratio_xyz_abcd: "ratio (ustr ''xyz'') (ustr ''abcd'') = 0"
  by code_simp

lemma preprocess_hello_world: "preprocess (ustr ''Hello, World!'') = ustr ''hello world''"
  by (simp add: preprocess_eval)

lemma ratio_xyz_hello_world: "ratio (ustr ''xyz'') (ustr ''hello world'') = 0"
  by code_simp

lemma preprocess_hello: "preprocess (ustr ''hello'') = ustr ''hello''"
  by (simp add: preprocess_eval)

lemma ratio_hello_hello: "ratio (ustr ''hello'') (ustr ''hello'') = 1"
  by code_simp

section \<open>What \<open>find_best\<close> returns (C1)\<close>

text \<open>
  C1, as the specification states it: when the maximum score is below the cut-off,
  \<open>find_best\<close> returns an empty answer together with the question text of the
  best-scoring entry and the score. It does not when every score is \<open>0\<close>: the index
  of an entry is recorded only when its score is strictly above the running best, which
  starts at \<open>0\<close>. With the single entry \<^verbatim>\<open>abc\<close> and the query \<^verbatim>\<open>xyz\<close> the score is
  \<open>0\<close> and the matched question returned is empty, not \<^verbatim>\<open>abc\<close>.
\<close>

theorem find_best_zero_score_counterexample:
  "load_kb (holds (JArr [entry ''abc'' ''x''])) fresh
     = (None, loaded (JArr [entry ''abc'' ''x'']) [JStr (ustr ''abc'')] [ustr ''abc'']) \<and>
   ratio (preprocess (ustr ''xyz'')) (ustr ''abc'') = 0 \<and>
   find_best (loaded (JArr [entry ''abc'' ''x'']) [JStr (ustr ''abc'')] [ustr ''abc'']) (ustr ''xyz'')
     = Inr (JStr [], JStr [], 0) \<and>
   find_best (loaded (JArr [entry ''abc'' ''x'']) [JStr (ustr ''abc'')] [ustr ''abc'']) (ustr ''xyz'')
     \<noteq> Inr (JStr [], JStr (ustr ''abc''), 0)"
proof -
  let ?m = "loaded (JArr [entry ''abc'' ''x'']) [JStr (ustr ''abc'')] [ustr ''abc'']"
  have l: "load_kb (holds (JArr [entry ''abc'' ''x''])) fresh = (None, ?m)"
    by (simp add: load_eval preprocess_abc)
  have r: "ratio (preprocess (ustr ''xyz'')) (ustr ''abc'') = 0"
    by (simp add: preprocess_xyz ratio_xyz_abc)
  have f: "find_best ?m (ustr ''xyz'') = Inr (JStr [], JStr [], 0)"
    by (simp add: find_best_def loaded_def preprocess_xyz ratio_xyz_abc)
  have n: "find_best ?m (ustr ''xyz'') \<noteq> Inr (JStr [], JStr (ustr ''abc''), 0)"
    unfolding f by (simp add: ustr_Cons_ne[symmetric])
  from l r f n show ?thesis by blast
qed

text \<open>
  C1, amended. For a knowledge base that was loaded: on an empty knowledge base
  \<open>find_best\<close> returns \<^verbatim>\<open>("", "", 0.0)\<close>. Otherwise let \<open>i\<close> be the first entry that
  attains the maximum score \<open>s\<close>. If \<open>s\<close> is strictly positive and at least the cut-off,
  and entry \<open>i\<close> holds an answer, the result is that answer, the question text of entry
  \<open>i\<close> (the empty string when the key is absent) and \<open>s\<close>. If \<open>s\<close> is strictly positive
  and below the cut-off, the result is the empty answer, that question text and \<open>s\<close>,
  whether the entry holds an answer or not. If \<open>s\<close> is \<open>0\<close>, it is \<^verbatim>\<open>("", "", 0.0)\<close>.
\<close>

theorem find_best_result:
  assumes "load_kb fs self = (None, m)"
  shows "(questions_proc m = [] \<longrightarrow> find_best m query = Inr (JStr [], JStr [], 0)) \<and>
         (i < length (questions_proc m) \<and>
          (\<forall>p\<in>set (questions_proc m).
             ratio (preprocess query) p \<le> ratio (preprocess query) (questions_proc m ! i)) \<and>
          (\<forall>p\<in>set (take i (questions_proc m)).
             ratio (preprocess query) p < ratio (preprocess query) (questions_proc m ! i)) \<and>
          kb m = JArr items \<and> items ! i = JObj kvs \<longrightarrow>
          (let s = ratio (preprocess query) (questions_proc m ! i);
               question = (case map_of kvs (ustr ''question'') of None \<Rightarrow> JStr [] | Some w \<Rightarrow> w)
           in (0 < s \<and> cutoff m \<le> s \<and> map_of kvs (ustr ''answer'') = Some answer \<longrightarrow>
                 find_best m query = Inr (answer, question, s)) \<and>
              (0 < s \<and> s < cutoff m \<longrightarrow> find_best m query = Inr (JStr [], question, s)) \<and>
              (s = 0 \<longrightarrow> find_best m query = Inr (JStr [], JStr [], 0))))"
proof (intro conjI impI)
  assume "questions_proc m = []"
  then have "\<forall>p\<in>set (questions_proc m). ratio (preprocess query) p \<le> 0" by simp
  then show "find_best m query = Inr (JStr [], JStr [], 0)" by (rule find_best_none)
next
  let ?s = "ratio (preprocess query) (questions_proc m ! i)"
  let ?question = "case map_of kvs (ustr ''question'') of None \<Rightarrow> JStr [] | Some w \<Rightarrow> w"
  assume a: "i < length (questions_proc m) \<and>
          (\<forall>p\<in>set (questions_proc m). ratio (preprocess query) p \<le> ?s) \<and>
          (\<forall>p\<in>set (take i (questions_proc m)). ratio (preprocess query) p < ?s) \<and>
          kb m = JArr items \<and> items ! i = JObj kvs"
  then have i: "i < length (questions_proc m)"
    and mx: "\<forall>p\<in>set (questions_proc m). ratio (preprocess query) p \<le> ?s"
    and fs: "\<forall>p\<in>set (take i (questions_proc m)). ratio (preprocess query) p < ?s"
    and arr: "kb m = JArr items" and obj: "items ! i = JObj kvs"
    by blast+
  from loaded_entry[OF assms i] arr obj i
  have li: "i < length items" and lq: "i < length (questions m)"
    and q: "questions m ! i = ?question"
    by auto
  have confident: "find_best m query = Inr (answer, ?question, ?s)"
    if "0 < ?s" "cutoff m \<le> ?s" "map_of kvs (ustr ''answer'') = Some answer"
    using find_best_first_max[OF i mx fs that(1) arr li lq] obj q that by simp
  have below: "find_best m query = Inr (JStr [], ?question, ?s)"
    if "0 < ?s" "?s < cutoff m"
    using find_best_first_max[OF i mx fs that(1) arr li lq] q that by simp
  have zero: "find_best m query = Inr (JStr [], JStr [], 0)" if "?s = 0"
  proof -
    from mx that have "\<forall>p\<in>set (questions_proc m). ratio (preprocess query) p \<le> 0" by simp
    then show ?thesis by (rule find_best_none)
  qed
  from confident below zero
  show "let s = ?s; question = ?question
        in (0 < s \<and> cutoff m \<le> s \<and> map_of kvs (ustr ''answer'') = Some answer \<longrightarrow>
              find_best m query = Inr (answer, question, s)) \<and>
           (0 < s \<and> s < cutoff m \<longrightarrow> find_best m query = Inr (JStr [], question, s)) \<and>
           (s = 0 \<longrightarrow> find_best m query = Inr (JStr [], JStr [], 0))"
    by (simp add: Let_def)
qed

text \<open>Witness for C1: an empty knowledge base; two entries of which the second scores
  \<open>1\<close> against the query and the first \<open>3/4\<close>; and one entry without an answer, scored
  \<open>2/5\<close> (below the cut-off) and \<open>0\<close>.\<close>

theorem find_best_result_witness:
  "find_best (loaded (JArr []) [] []) (ustr ''bcde'') = Inr (JStr [], JStr [], 0) \<and>
   find_best (loaded (JArr [entry ''abcd'' ''first'', entry ''bcde'' ''second''])
                [JStr (ustr ''abcd''), JStr (ustr ''bcde'')] [ustr ''abcd'', ustr ''bcde''])
       (ustr ''bcde'') = Inr (JStr (ustr ''second''), JStr (ustr ''bcde''), 1) \<and>
   find_best (loaded (JArr [JObj [(ustr ''question'', JStr (ustr ''abcd''))]])
                [JStr (ustr ''abcd'')] [ustr ''abcd''])
       (ustr ''a'') = Inr (JStr [], JStr (ustr ''abcd''), 2 / 5) \<and>
   find_best (loaded (JArr [JObj [(ustr ''question'', JStr (ustr ''abcd''))]])
                [JStr (ustr ''abcd'')] [ustr ''abcd''])
       (ustr ''xyz'') = Inr (JStr [], JStr [], 0)"
proof -
  let ?v = "JArr [entry ''abcd'' ''first'', entry ''bcde'' ''second'']"
  let ?m = "loaded ?v [JStr (ustr ''abcd''), JStr (ustr ''bcde'')] [ustr ''abcd'', ustr ''bcde'']"
  let ?kvs = "[(ustr ''question'', JStr (ustr ''bcde'')), (ustr ''answer'', JStr (ustr ''second''))]"
  let ?w = "JArr [JObj [(ustr ''question'', JStr (ustr ''abcd''))]]"
  let ?n = "loaded ?w [JStr (ustr ''abcd'')] [ustr ''abcd'']"
  let ?kws = "[(ustr ''question'', JStr (ustr ''abcd''))]"
  have l0: "load_kb (holds (JArr [])) fresh = (None, loaded (JArr []) [] [])"
    by (simp add: load_eval)
  have e: "questions_proc (loaded (JArr []) [] []) = []" by (simp add: loaded_def)
  have one: "find_best (loaded (JArr []) [] []) (ustr ''bcde'') = Inr (JStr [], JStr [], 0)"
    using find_best_result[OF l0, THEN conjunct1] e by simp
  have l: "load_kb (holds ?v) fresh = (None, ?m)"
    by (simp add: load_eval preprocess_abcd preprocess_bcde)
  have h: "1 < length (questions_proc ?m) \<and>
          (\<forall>p\<in>set (questions_proc ?m).
             ratio (preprocess (ustr ''bcde'')) p \<le> ratio (preprocess (ustr ''bcde'')) (questions_proc ?m ! 1)) \<and>
          (\<forall>p\<in>set (take 1 (questions_proc ?m)).
             ratio (preprocess (ustr ''bcde'')) p < ratio (preprocess (ustr ''bcde'')) (questions_proc ?m ! 1)) \<and>
          kb ?m = JArr [entry ''abcd'' ''first'', entry ''bcde'' ''second''] \<and>
          [entry ''abcd'' ''first'', entry ''bcde'' ''second''] ! 1 = JObj ?kvs"
    by (simp add: loaded_def entry_def preprocess_bcde ratio_bcde_abcd ratio_bcde_bcde)
  have two: "find_best ?m (ustr ''bcde'') = Inr (JStr (ustr ''second''), JStr (ustr ''bcde''), 1)"
    using find_best_result[OF l, THEN conjunct2, THEN mp, OF h, of "JStr (ustr ''second'')"]
    by (simp add: Let_def loaded_def preprocess_bcde ratio_bcde_bcde ustr_eq_iff)
  have ln: "load_kb (holds ?w) fresh = (None, ?n)"
    by (simp add: load_eval preprocess_abcd)
  have hn: "0 < length (questions_proc ?n) \<and>
          (\<forall>p\<in>set (questions_proc ?n).
             ratio (preprocess q) p \<le> ratio (preprocess q) (questions_proc ?n ! 0)) \<and>
          (\<forall>p\<in>set (take 0 (questions_proc ?n)).
             ratio (preprocess q) p < ratio (preprocess q) (questions_proc ?n ! 0)) \<and>
          kb ?n = JArr [JObj ?kws] \<and> [JObj ?kws] ! 0 = JObj ?kws" for q
    by (simp add: loaded_def)
  have three: "find_best ?n (ustr ''a'') = Inr (JStr [], JStr (ustr ''abcd''), 2 / 5)"
    using find_best_result[OF ln, THEN conjunct2, THEN mp, OF hn, of "ustr ''a''"]
    by (simp add: Let_def loaded_def preprocess_a ratio_a_abcd)
  have four: "find_best ?n (ustr ''xyz'') = Inr (JStr [], JStr [], 0)"
    using find_best_result[OF ln, THEN conjunct2, THEN mp, OF hn, of "ustr ''xyz''"]
    by (simp add: Let_def loaded_def preprocess_xyz ratio_xyz_abcd)
  from one two three four show ?thesis by blast
qed

section \<open>A missing \<^verbatim>\<open>answer\<close> key (C2)\<close>

text \<open>
  C2: a missing \<^verbatim>\<open>question\<close> or \<^verbatim>\<open>answer\<close> key defaults to the empty string and
  never makes \<open>find_best\<close> raise. The loader does read the question with
  \<^verbatim>\<open>item.get("question", "")\<close>, but \<open>find_best\<close> reads the answer with
  \<^verbatim>\<open>self.kb[best_idx]["answer"]\<close>: the load of the single entry
  \<^verbatim>\<open>{"question": "hello"}\<close> succeeds, and the query \<^verbatim>\<open>hello\<close>, which matches it with
  score \<open>1\<close>, raises \<^verbatim>\<open>KeyError\<close>.
\<close>

theorem find_best_missing_answer:
  "load_kb (holds (JArr [JObj [(ustr ''question'', JStr (ustr ''hello''))]])) fresh
     = (None, loaded (JArr [JObj [(ustr ''question'', JStr (ustr ''hello''))]])
                [JStr (ustr ''hello'')] [ustr ''hello'']) \<and>
   find_best (loaded (JArr [JObj [(ustr ''question'', JStr (ustr ''hello''))]])
                [JStr (ustr ''hello'')] [ustr ''hello'']) (ustr ''hello'') = Inl KeyError"
proof -
  let ?m = "loaded (JArr [JObj [(ustr ''question'', JStr (ustr ''hello''))]]) [JStr (ustr ''hello'')] [ustr ''hello'']"
  have l: "load_kb (holds (JArr [JObj [(ustr ''question'', JStr (ustr ''hello''))]])) fresh = (None, ?m)"
    by (simp add: load_eval preprocess_hello)
  have f: "find_best ?m (ustr ''hello'') = Inl KeyError"
    by (simp add: find_best_def loaded_def preprocess_hello ratio_hello_hello list_getitem_def ustr_eq_iff)
  from l f show ?thesis by (rule conjI)
qed

section \<open>The normalizer (C3)\<close>

text \<open>
  C3, as the specification states it: the normalizer is idempotent. It is not. The
  white space is stripped before the punctuation is deleted, so a space that stood
  before a trailing punctuation mark survives the first pass and is stripped by the
  second: \<^verbatim>\<open>"a !"\<close> goes to \<^verbatim>\<open>"a "\<close> and then to \<^verbatim>\<open>"a"\<close>.
\<close>

theorem preprocess_not_idempotent:
  "preprocess (ustr ''a !'') = ustr ''a '' \<and>
   preprocess (preprocess (ustr ''a !'')) = ustr ''a'' \<and>
   preprocess (preprocess (ustr ''a !'')) \<noteq> preprocess (ustr ''a !'')"
  by (simp add: preprocess_eval)

text \<open>
  C3, amended: a second pass of the normalizer only strips the result of the first,
  \<open>preprocess (preprocess s) = strip (preprocess s)\<close>, and from the second pass on the
  result no longer changes.
\<close>

theorem preprocess_twice:
  "preprocess (preprocess s) = strip (preprocess s) \<and>
   preprocess (preprocess (preprocess s)) = preprocess (preprocess s)"
proof -
  have once: "preprocess (preprocess t) = strip (preprocess t)" for t
  proof -
    let ?t = "preprocess t"
    have ss: "single_spaced ?t" by (simp add: preprocess_def single_spaced_collapse)
    have k: "\<forall>c\<in>set ?t. keep_cp c" by (simp add: keep_preprocess)
    have l: "lower ?t = ?t" using k ss by (rule lower_plain)
    have r: "remove_punct (strip ?t) = strip ?t"
      using k set_strip[of ?t] by (auto simp: remove_punct_def filter_id_conv)
    have c: "collapse_ws (strip ?t) = strip ?t"
      using ss by (intro collapse_id single_spaced_strip)
    show ?thesis
      by (subst (1) preprocess_def) (simp only: l r c)
  qed
  have "preprocess (preprocess (preprocess s)) = strip (preprocess (preprocess s))"
    by (rule once)
  also have "\<dots> = strip (strip (preprocess s))" by (simp only: once)
  also have "\<dots> = strip (preprocess s)" by (rule strip_idem)
  also have "\<dots> = preprocess (preprocess s)" by (simp only: once)
  finally show ?thesis using once by simp
qed

text \<open>Witness for C3, at the input of the counterexample.\<close>

theorem preprocess_twice_witness:
  "preprocess (preprocess (ustr ''a !'')) = strip (preprocess (ustr ''a !'')) \<and>
   preprocess (preprocess (preprocess (ustr ''a !''))) = preprocess (preprocess (ustr ''a !''))"
  by (rule preprocess_twice)

section \<open>Reload and atomicity (C4)\<close>

text \<open>
  C4, as the specification states it: after a reload attempt either the knowledge base
  and the cache both reflect the new source, or both are the prior state. They are
  neither when the source parses but has the wrong shape. \<^verbatim>\<open>_load_kb\<close> assigns
  \<^verbatim>\<open>self.kb\<close> as soon as the file is parsed and builds the caches afterwards: with the
  source \<^verbatim>\<open>[1]\<close> the knowledge base is replaced, \<^verbatim>\<open>item.get\<close> raises
  \<^verbatim>\<open>AttributeError\<close>, and the caches of the old knowledge base stay.
\<close>

theorem reload_not_atomic:
  "reload_kb (holds (JArr [JNum 1]))
     (loaded (JArr [entry ''abc'' ''x'']) [JStr (ustr ''abc'')] [ustr ''abc''])
   = (Some AttributeError, loaded (JArr [JNum 1]) [JStr (ustr ''abc'')] [ustr ''abc'']) \<and>
   loaded (JArr [JNum 1]) [JStr (ustr ''abc'')] [ustr ''abc'']
     \<noteq> loaded (JArr [entry ''abc'' ''x'']) [JStr (ustr ''abc'')] [ustr ''abc''] \<and>
   \<not> cache_parallel (loaded (JArr [JNum 1]) [JStr (ustr ''abc'')] [ustr ''abc''])"
  by (simp add: reload_kb_def load_eval cache_parallel_def)

text \<open>
  C4, amended. A reload that succeeds leaves the knowledge base read from the source and
  caches parallel to it. A reload that fails while the source is read or parsed leaves
  the prior state exactly. A reload that fails after the source was parsed has replaced
  the knowledge base by the parsed value and has kept the prior normalized cache.
\<close>

theorem reload_kb_outcomes:
  "(reload_kb fs self = (None, m) \<longrightarrow> fs (kb_path self) = Inr (kb m) \<and> cache_parallel m) \<and>
   (fs (kb_path self) = Inl e \<longrightarrow> reload_kb fs self = (Some e, self)) \<and>
   (fs (kb_path self) = Inr v \<and> reload_kb fs self = (Some e', m') \<longrightarrow>
      kb m' = v \<and> questions_proc m' = questions_proc self)"
proof (intro conjI impI)
  assume a: "reload_kb fs self = (None, m)"
  then have l: "load_kb fs self = (None, m)" by (simp add: reload_kb_def)
  from load_kb_ok[OF l] show "fs (kb_path self) = Inr (kb m)" by blast
  from l show "cache_parallel m" by (rule load_kb_cache_parallel)
next
  assume "fs (kb_path self) = Inl e"
  then show "reload_kb fs self = (Some e, self)"
    by (simp add: reload_kb_def load_kb_read_error)
next
  assume a: "fs (kb_path self) = Inr v \<and> reload_kb fs self = (Some e', m')"
  then have "load_kb fs self = (Some e', m')" and "fs (kb_path self) = Inr v"
    by (simp_all add: reload_kb_def)
  from load_kb_failed[OF this]
  show "kb m' = v" and "questions_proc m' = questions_proc self" by simp_all
qed

text \<open>Witness for C4: a reload that succeeds, one whose source cannot be read, and one
  whose source has the wrong shape.\<close>

theorem reload_kb_outcomes_witness:
  "(holds (JArr [entry ''abd'' ''y'']) (ustr ''kb.json'')
      = Inr (kb (loaded (JArr [entry ''abd'' ''y'']) [JStr (ustr ''abd'')] [ustr ''abd''])) \<and>
    cache_parallel (loaded (JArr [entry ''abd'' ''y'']) [JStr (ustr ''abd'')] [ustr ''abd''])) \<and>
   reload_kb (\<lambda>path. Inl OSError)
      (loaded (JArr [entry ''abc'' ''x'']) [JStr (ustr ''abc'')] [ustr ''abc''])
     = (Some OSError, loaded (JArr [entry ''abc'' ''x'']) [JStr (ustr ''abc'')] [ustr ''abc'']) \<and>
   (kb (loaded (JArr [JNum 1]) [JStr (ustr ''abc'')] [ustr ''abc'']) = JArr [JNum 1] \<and>
    questions_proc (loaded (JArr [JNum 1]) [JStr (ustr ''abc'')] [ustr ''abc''])
      = questions_proc (loaded (JArr [entry ''abc'' ''x'']) [JStr (ustr ''abc'')] [ustr ''abc'']))"
proof -
  let ?old = "loaded (JArr [entry ''abc'' ''x'']) [JStr (ustr ''abc'')] [ustr ''abc'']"
  let ?new = "loaded (JArr [entry ''abd'' ''y'']) [JStr (ustr ''abd'')] [ustr ''abd'']"
  let ?mix = "loaded (JArr [JNum 1]) [JStr (ustr ''abc'')] [ustr ''abc'']"
  have p: "kb_path ?old = ustr ''kb.json''" by (simp add: loaded_def)
  have ok: "reload_kb (holds (JArr [entry ''abd'' ''y''])) ?old = (None, ?new)"
    by (simp add: reload_kb_def load_eval preprocess_abd)
  have one: "holds (JArr [entry ''abd'' ''y'']) (ustr ''kb.json'') = Inr (kb ?new) \<and> cache_parallel ?new"
    using reload_kb_outcomes[of "holds (JArr [entry ''abd'' ''y''])" ?old ?new, THEN conjunct1, THEN mp, OF ok]
    unfolding p .
  have rd: "(\<lambda>path. Inl OSError) (kb_path ?old) = (Inl OSError :: py_error + json)" by simp
  have two: "reload_kb (\<lambda>path. Inl OSError) ?old = (Some OSError, ?old)"
    using reload_kb_outcomes[of "\<lambda>path. Inl OSError" ?old _ OSError, THEN conjunct2, THEN conjunct1, THEN mp, OF rd] .
  have bad: "holds (JArr [JNum 1]) (kb_path ?old) = Inr (JArr [JNum 1]) \<and>
             reload_kb (holds (JArr [JNum 1])) ?old = (Some AttributeError, ?mix)"
    by (simp add: reload_kb_def load_eval)
  have three: "kb ?mix = JArr [JNum 1] \<and> questions_proc ?mix = questions_proc ?old"
    using reload_kb_outcomes[of "holds (JArr [JNum 1])" ?old _ _ "JArr [JNum 1]" AttributeError ?mix,
        THEN conjunct2, THEN conjunct2, THEN mp, OF bad] .
  from one two three show ?thesis by blast
qed

section \<open>The ratio of two empty strings (C5)\<close>

text \<open>
  C5: when the normalized query and a stored normalized question are both the empty
  string, the similarity ratio of the pair is exactly 1.
\<close>

theorem ratio_both_empty:
  "preprocess query = [] \<Longrightarrow> q_proc = [] \<Longrightarrow> ratio (preprocess query) q_proc = 1"
  by (simp add: ratio_empty)

text \<open>Witness for C5: a query and a question of punctuation only.\<close>

theorem ratio_both_empty_witness:
  "ratio (preprocess (ustr ''?!'')) (preprocess (ustr ''...'')) = 1"
proof -
  have q: "preprocess (ustr ''?!'') = []" by (simp add: preprocess_eval)
  have p: "preprocess (ustr ''...'') = []" by (simp add: preprocess_eval)
  from ratio_both_empty[OF q p] show ?thesis .
qed

section \<open>The cut-off comparison (C6)\<close>

text \<open>
  C6, as the specification states it: with the cut-off \<^verbatim>\<open>0.55\<close>, any query whose best
  score is exactly \<^verbatim>\<open>0.55\<close> gets a non-empty answer. The comparison is inclusive, but
  what the confident branch returns is the answer stored in the entry: an entry whose
  answer is the empty string, matched at exactly \<open>22/40 = 0.55\<close>, returns the empty
  answer.
\<close>

theorem cutoff_empty_answer_counterexample:
  "load_kb (holds (JArr [entry ''aaaaaaaaaaaccccccccc'' ''''])) fresh
     = (None, loaded (JArr [entry ''aaaaaaaaaaaccccccccc'' ''''])
                [JStr (ustr ''aaaaaaaaaaaccccccccc'')] [ustr ''aaaaaaaaaaaccccccccc'']) \<and>
   cutoff (loaded (JArr [entry ''aaaaaaaaaaaccccccccc'' ''''])
             [JStr (ustr ''aaaaaaaaaaaccccccccc'')] [ustr ''aaaaaaaaaaaccccccccc'']) = 11 / 20 \<and>
   ratio (preprocess (ustr ''aaaaaaaaaaabbbbbbbbb'')) (ustr ''aaaaaaaaaaaccccccccc'') = 11 / 20 \<and>
   find_best (loaded (JArr [entry ''aaaaaaaaaaaccccccccc'' ''''])
                [JStr (ustr ''aaaaaaaaaaaccccccccc'')] [ustr ''aaaaaaaaaaaccccccccc''])
       (ustr ''aaaaaaaaaaabbbbbbbbb'')
     = Inr (JStr [], JStr (ustr ''aaaaaaaaaaaccccccccc''), 11 / 20)"
proof -
  let ?v = "JArr [entry ''aaaaaaaaaaaccccccccc'' '''']"
  let ?m = "loaded ?v [JStr (ustr ''aaaaaaaaaaaccccccccc'')] [ustr ''aaaaaaaaaaaccccccccc'']"
  have l: "load_kb (holds ?v) fresh = (None, ?m)"
    by (simp add: load_eval preprocess_a11c9)
  have c: "cutoff ?m = 11 / 20" by (simp add: loaded_def)
  have r: "ratio (preprocess (ustr ''aaaaaaaaaaabbbbbbbbb'')) (ustr ''aaaaaaaaaaaccccccccc'') = 11 / 20"
    by (simp add: preprocess_a11b9 ratio_a11b9_a11c9)
  have f: "find_best ?m (ustr ''aaaaaaaaaaabbbbbbbbb'')
             = Inr (JStr [], JStr (ustr ''aaaaaaaaaaaccccccccc''), 11 / 20)"
    by (simp add: find_best_def loaded_def entry_def preprocess_a11b9 ratio_a11b9_a11c9
        list_getitem_def ustr_eq_iff ustr_Nil)
  from l c r f show ?thesis by blast
qed

text \<open>
  C6, amended. With the cut-off \<^verbatim>\<open>0.55\<close>, let \<open>i\<close> be the first entry that attains the
  maximum score. When that score is exactly \<^verbatim>\<open>0.55\<close> and entry \<open>i\<close> holds an answer,
  \<open>find_best\<close> takes the confident branch and returns the stored answer of entry \<open>i\<close>
  (non-empty exactly when the stored answer is), its question text and the score. When
  the score is strictly below \<^verbatim>\<open>0.55\<close>, the answer returned is empty.
\<close>

theorem cutoff_inclusive:
  assumes "load_kb fs self = (None, m)" and "cutoff m = 11 / 20"
    and "i < length (questions_proc m)"
    and "\<forall>p\<in>set (questions_proc m).
           ratio (preprocess query) p \<le> ratio (preprocess query) (questions_proc m ! i)"
    and "\<forall>p\<in>set (take i (questions_proc m)).
           ratio (preprocess query) p < ratio (preprocess query) (questions_proc m ! i)"
  shows "(ratio (preprocess query) (questions_proc m ! i) = 11 / 20 \<and>
          kb m = JArr items \<and> items ! i = JObj kvs \<and>
          map_of kvs (ustr ''answer'') = Some answer \<longrightarrow>
            find_best m query = Inr (answer, questions m ! i, 11 / 20)) \<and>
         (ratio (preprocess query) (questions_proc m ! i) < 11 / 20 \<longrightarrow>
            (\<exists>matched. find_best m query =
               Inr (JStr [], matched, ratio (preprocess query) (questions_proc m ! i))))"
proof (intro conjI impI)
  let ?s = "ratio (preprocess query) (questions_proc m ! i)"
  from loaded_entry[OF assms(1,3)] obtain its where
    arr': "kb m = JArr its" and li': "length its = length (questions_proc m)"
    and lq': "length (questions m) = length (questions_proc m)"
    by blast
  have li: "i < length its" and lq: "i < length (questions m)"
    using li' lq' assms(3) by simp_all
  {
    assume a: "?s = 11 / 20 \<and> kb m = JArr items \<and> items ! i = JObj kvs \<and>
               map_of kvs (ustr ''answer'') = Some answer"
    then have eq: "?s = 11 / 20" and arr: "kb m = JArr items" and obj: "items ! i = JObj kvs"
      and ans: "map_of kvs (ustr ''answer'') = Some answer"
      by blast+
    from eq have pos: "0 < ?s" by simp
    from arr arr' have "its = items" by simp
    with li have lii: "i < length items" by simp
    from find_best_first_max[OF assms(3,4,5) pos arr lii lq] assms(2) obj ans eq
    show "find_best m query = Inr (answer, questions m ! i, 11 / 20)" by simp
  next
    assume lt: "?s < 11 / 20"
    show "\<exists>matched. find_best m query = Inr (JStr [], matched, ?s)"
    proof (cases "0 < ?s")
      case True
      from find_best_first_max[OF assms(3,4,5) True arr' li lq] assms(2) lt
      show ?thesis by simp
    next
      case False
      with ratio_nonneg[of "preprocess query" "questions_proc m ! i"] have z: "?s = 0" by simp
      with assms(4) have "\<forall>p\<in>set (questions_proc m). ratio (preprocess query) p \<le> 0" by simp
      then have "find_best m query = Inr (JStr [], JStr [], 0)" by (rule find_best_none)
      with z show ?thesis by simp
    qed
  }
qed

text \<open>Witness for C6: scores \<open>22/40 = 0.55\<close> and \<open>1/3\<close> against one entry.\<close>

theorem cutoff_inclusive_witness:
  "find_best (loaded (JArr [entry ''aaaaaaaaaaaccccccccc'' ''yes''])
                [JStr (ustr ''aaaaaaaaaaaccccccccc'')] [ustr ''aaaaaaaaaaaccccccccc''])
       (ustr ''aaaaaaaaaaabbbbbbbbb'')
     = Inr (JStr (ustr ''yes''), JStr (ustr ''aaaaaaaaaaaccccccccc''), 11 / 20) \<and>
   (\<exists>matched. find_best (loaded (JArr [entry ''aaaaaaaaaaaccccccccc'' ''yes''])
                [JStr (ustr ''aaaaaaaaaaaccccccccc'')] [ustr ''aaaaaaaaaaaccccccccc''])
       (ustr ''cccc'') = Inr (JStr [], matched, 1 / 3))"
proof -
  let ?v = "JArr [entry ''aaaaaaaaaaaccccccccc'' ''yes'']"
  let ?m = "loaded ?v [JStr (ustr ''aaaaaaaaaaaccccccccc'')] [ustr ''aaaaaaaaaaaccccccccc'']"
  let ?kvs = "[(ustr ''question'', JStr (ustr ''aaaaaaaaaaaccccccccc'')), (ustr ''answer'', JStr (ustr ''yes''))]"
  have l: "load_kb (holds ?v) fresh = (None, ?m)"
    by (simp add: load_eval preprocess_a11c9)
  have c: "cutoff ?m = 11 / 20" by (simp add: loaded_def)
  have i: "0 < length (questions_proc ?m)" by (simp add: loaded_def)
  have mx: "\<forall>p\<in>set (questions_proc ?m).
           ratio (preprocess q) p \<le> ratio (preprocess q) (questions_proc ?m ! 0)" for q
    by (simp add: loaded_def)
  have fs: "\<forall>p\<in>set (take 0 (questions_proc ?m)).
           ratio (preprocess q) p < ratio (preprocess q) (questions_proc ?m ! 0)" for q
    by simp
  have s1: "ratio (preprocess (ustr ''aaaaaaaaaaabbbbbbbbb'')) (questions_proc ?m ! 0) = 11 / 20 \<and>
            kb ?m = JArr [entry ''aaaaaaaaaaaccccccccc'' ''yes''] \<and>
            [entry ''aaaaaaaaaaaccccccccc'' ''yes''] ! 0 = JObj ?kvs \<and>
            map_of ?kvs (ustr ''answer'') = Some (JStr (ustr ''yes''))"
    by (simp add: loaded_def entry_def preprocess_a11b9 ratio_a11b9_a11c9 ustr_eq_iff)
  have s2: "ratio (preprocess (ustr ''cccc'')) (questions_proc ?m ! 0) < 11 / 20"
    by (simp add: loaded_def preprocess_cccc ratio_cccc_a11c9)
  have q0: "questions ?m ! 0 = JStr (ustr ''aaaaaaaaaaaccccccccc'')" by (simp add: loaded_def)
  have s3: "ratio (preprocess (ustr ''cccc'')) (questions_proc ?m ! 0) = 1 / 3"
    by (simp add: loaded_def preprocess_cccc ratio_cccc_a11c9)
  have one: "find_best ?m (ustr ''aaaaaaaaaaabbbbbbbbb'')
     = Inr (JStr (ustr ''yes''), JStr (ustr ''aaaaaaaaaaaccccccccc''), 11 / 20)"
    using cutoff_inclusive[OF l c i mx fs, THEN conjunct1, THEN mp, OF s1]
    unfolding q0 .
  have two: "\<exists>matched. find_best ?m (ustr ''cccc'') = Inr (JStr [], matched, 1 / 3)"
    using cutoff_inclusive[OF l c i mx fs, THEN conjunct2, THEN mp, OF s2]
    unfolding s3 .
  from one two show ?thesis by (rule conjI)
qed

section \<open>Ties (C7)\<close>

text \<open>
  C7, as the specification states it: when two or more entries attain the maximum
  score, \<open>find_best\<close> returns the entry with the lower index. It returns no entry when
  that maximum is \<open>0\<close>: two entries that both score \<open>0\<close> against the query tie at the
  maximum, and the result is \<^verbatim>\<open>("", "", 0.0)\<close>.
\<close>

theorem tie_at_zero_counterexample:
  "load_kb (holds (JArr [entry ''abc'' ''x'', entry ''abd'' ''y''])) fresh
     = (None, loaded (JArr [entry ''abc'' ''x'', entry ''abd'' ''y''])
                [JStr (ustr ''abc''), JStr (ustr ''abd'')] [ustr ''abc'', ustr ''abd'']) \<and>
   ratio (preprocess (ustr ''xyz'')) (ustr ''abc'') = 0 \<and>
   ratio (preprocess (ustr ''xyz'')) (ustr ''abd'') = 0 \<and>
   find_best (loaded (JArr [entry ''abc'' ''x'', entry ''abd'' ''y''])
                [JStr (ustr ''abc''), JStr (ustr ''abd'')] [ustr ''abc'', ustr ''abd''])
       (ustr ''xyz'') = Inr (JStr [], JStr [], 0)"
proof -
  let ?v = "JArr [entry ''abc'' ''x'', entry ''abd'' ''y'']"
  let ?m = "loaded ?v [JStr (ustr ''abc''), JStr (ustr ''abd'')] [ustr ''abc'', ustr ''abd'']"
  have l: "load_kb (holds ?v) fresh = (None, ?m)"
    by (simp add: load_eval preprocess_abc preprocess_abd)
  have r1: "ratio (preprocess (ustr ''xyz'')) (ustr ''abc'') = 0"
    by (simp add: preprocess_xyz ratio_xyz_abc)
  have r2: "ratio (preprocess (ustr ''xyz'')) (ustr ''abd'') = 0"
    by (simp add: preprocess_xyz ratio_xyz_abd)
  have f: "find_best ?m (ustr ''xyz'') = Inr (JStr [], JStr [], 0)"
    by (simp add: find_best_def loaded_def preprocess_xyz ratio_xyz_abc ratio_xyz_abd)
  from l r1 r2 f show ?thesis by blast
qed

text \<open>
  C7, amended: when two or more entries attain the maximum score and that score is
  strictly positive, the scan ends on the lowest of their indices \<open>i\<close>. Below the
  cut-off \<open>find_best\<close> then returns the empty answer with the question text of entry
  \<open>i\<close>; at or above the cut-off, when entry \<open>i\<close> holds an answer, it returns the answer
  and the question text of entry \<open>i\<close>.
\<close>

theorem tie_break_first_wins:
  assumes "load_kb fs self = (None, m)"
    and "i < j" and "j < length (questions_proc m)"
    and "ratio (preprocess query) (questions_proc m ! j) = ratio (preprocess query) (questions_proc m ! i)"
    and "\<forall>p\<in>set (questions_proc m).
           ratio (preprocess query) p \<le> ratio (preprocess query) (questions_proc m ! i)"
    and "\<forall>p\<in>set (take i (questions_proc m)).
           ratio (preprocess query) p < ratio (preprocess query) (questions_proc m ! i)"
    and "0 < ratio (preprocess query) (questions_proc m ! i)"
  shows "scan (preprocess query) (questions_proc m) 0 (- 1, 0)
           = (int i, ratio (preprocess query) (questions_proc m ! i)) \<and>
         (ratio (preprocess query) (questions_proc m ! i) < cutoff m \<longrightarrow>
            find_best m query =
              Inr (JStr [], questions m ! i, ratio (preprocess query) (questions_proc m ! i))) \<and>
         (cutoff m \<le> ratio (preprocess query) (questions_proc m ! i) \<and>
          kb m = JArr items \<and> items ! i = JObj kvs \<and>
          map_of kvs (ustr ''answer'') = Some answer \<longrightarrow>
            find_best m query =
              Inr (answer, questions m ! i, ratio (preprocess query) (questions_proc m ! i)))"
proof (intro conjI impI)
  let ?s = "ratio (preprocess query) (questions_proc m ! i)"
  have i: "i < length (questions_proc m)" using assms(2,3) by simp
  from loaded_entry[OF assms(1) i] obtain its where
    arr': "kb m = JArr its" and li': "length its = length (questions_proc m)"
    and lq': "length (questions m) = length (questions_proc m)"
    by blast
  have li: "i < length its" and lq: "i < length (questions m)"
    using li' lq' i by simp_all
  show "scan (preprocess query) (questions_proc m) 0 (- 1, 0) = (int i, ?s)"
    using scan_first_max[OF i assms(5,6,7), of 0 "- 1"] by simp
  {
    assume lt: "?s < cutoff m"
    from find_best_first_max[OF i assms(5,6,7) arr' li lq] lt
    show "find_best m query = Inr (JStr [], questions m ! i, ?s)" by simp
  next
    assume a: "cutoff m \<le> ?s \<and> kb m = JArr items \<and> items ! i = JObj kvs \<and>
               map_of kvs (ustr ''answer'') = Some answer"
    then have ge: "cutoff m \<le> ?s" and arr: "kb m = JArr items" and obj: "items ! i = JObj kvs"
      and ans: "map_of kvs (ustr ''answer'') = Some answer"
      by blast+
    from arr arr' have "its = items" by simp
    with li have lii: "i < length items" by simp
    from find_best_first_max[OF i assms(5,6,7) arr lii lq] ge obj ans
    show "find_best m query = Inr (answer, questions m ! i, ?s)" by simp
  }
qed

text \<open>Witness for C7: the query \<^verbatim>\<open>a\<close> scores \<open>2/3\<close> against both \<^verbatim>\<open>ab\<close> and \<^verbatim>\<open>ba\<close>,
  and \<open>2/5\<close>, below the cut-off, against both \<^verbatim>\<open>abcd\<close> and \<^verbatim>\<open>dcba\<close>.\<close>

theorem tie_break_first_wins_witness:
  "scan (preprocess (ustr ''a'')) [ustr ''ab'', ustr ''ba''] 0 (- 1, 0) = (0, 2 / 3) \<and>
   find_best (loaded (JArr [entry ''ab'' ''one'', entry ''ba'' ''two''])
                [JStr (ustr ''ab''), JStr (ustr ''ba'')] [ustr ''ab'', ustr ''ba''])
       (ustr ''a'') = Inr (JStr (ustr ''one''), JStr (ustr ''ab''), 2 / 3) \<and>
   find_best (loaded (JArr [JObj [(ustr ''question'', JStr (ustr ''abcd''))],
                            JObj [(ustr ''question'', JStr (ustr ''dcba''))]])
                [JStr (ustr ''abcd''), JStr (ustr ''dcba'')] [ustr ''abcd'', ustr ''dcba''])
       (ustr ''a'') = Inr (JStr [], JStr (ustr ''abcd''), 2 / 5)"
proof -
  let ?v = "JArr [entry ''ab'' ''one'', entry ''ba'' ''two'']"
  let ?m = "loaded ?v [JStr (ustr ''ab''), JStr (ustr ''ba'')] [ustr ''ab'', ustr ''ba'']"
  let ?kvs = "[(ustr ''question'', JStr (ustr ''ab'')), (ustr ''answer'', JStr (ustr ''one''))]"
  have l: "load_kb (holds ?v) fresh = (None, ?m)"
    by (simp add: load_eval preprocess_ab preprocess_ba)
  have ij: "(0::nat) < 1" by simp
  have j: "1 < length (questions_proc ?m)" by (simp add: loaded_def)
  have tie: "ratio (preprocess (ustr ''a'')) (questions_proc ?m ! 1)
               = ratio (preprocess (ustr ''a'')) (questions_proc ?m ! 0)"
    by (simp add: loaded_def preprocess_a ratio_a_ab ratio_a_ba)
  have mx: "\<forall>p\<in>set (questions_proc ?m).
           ratio (preprocess (ustr ''a'')) p \<le> ratio (preprocess (ustr ''a'')) (questions_proc ?m ! 0)"
    by (simp add: loaded_def preprocess_a ratio_a_ab ratio_a_ba)
  have fs: "\<forall>p\<in>set (take 0 (questions_proc ?m)).
           ratio (preprocess (ustr ''a'')) p < ratio (preprocess (ustr ''a'')) (questions_proc ?m ! 0)"
    by simp
  have pos: "0 < ratio (preprocess (ustr ''a'')) (questions_proc ?m ! 0)"
    by (simp add: loaded_def preprocess_a ratio_a_ab)
  have conf: "cutoff ?m \<le> ratio (preprocess (ustr ''a'')) (questions_proc ?m ! 0) \<and>
              kb ?m = JArr [entry ''ab'' ''one'', entry ''ba'' ''two''] \<and>
              [entry ''ab'' ''one'', entry ''ba'' ''two''] ! 0 = JObj ?kvs \<and>
              map_of ?kvs (ustr ''answer'') = Some (JStr (ustr ''one''))"
    by (simp add: loaded_def entry_def preprocess_a ratio_a_ab ustr_eq_iff)
  have one: "scan (preprocess (ustr ''a'')) [ustr ''ab'', ustr ''ba''] 0 (- 1, 0) = (0, 2 / 3)"
    using tie_break_first_wins[OF l ij j tie mx fs pos, THEN conjunct1]
    by (simp add: loaded_def preprocess_a ratio_a_ab)
  have two: "find_best ?m (ustr ''a'') = Inr (JStr (ustr ''one''), JStr (ustr ''ab''), 2 / 3)"
    using tie_break_first_wins[OF l ij j tie mx fs pos, THEN conjunct2, THEN conjunct2, THEN mp, OF conf]
    by (simp add: loaded_def preprocess_a ratio_a_ab)
  let ?w = "JArr [JObj [(ustr ''question'', JStr (ustr ''abcd''))],
                  JObj [(ustr ''question'', JStr (ustr ''dcba''))]]"
  let ?n = "loaded ?w [JStr (ustr ''abcd''), JStr (ustr ''dcba'')] [ustr ''abcd'', ustr ''dcba'']"
  have ln: "load_kb (holds ?w) fresh = (None, ?n)"
    by (simp add: load_eval preprocess_abcd preprocess_dcba)
  have jn: "1 < length (questions_proc ?n)" by (simp add: loaded_def)
  have tien: "ratio (preprocess (ustr ''a'')) (questions_proc ?n ! 1)
               = ratio (preprocess (ustr ''a'')) (questions_proc ?n ! 0)"
    by (simp add: loaded_def preprocess_a ratio_a_abcd ratio_a_dcba)
  have mxn: "\<forall>p\<in>set (questions_proc ?n).
           ratio (preprocess (ustr ''a'')) p \<le> ratio (preprocess (ustr ''a'')) (questions_proc ?n ! 0)"
    by (simp add: loaded_def preprocess_a ratio_a_abcd ratio_a_dcba)
  have fsn: "\<forall>p\<in>set (take 0 (questions_proc ?n)).
           ratio (preprocess (ustr ''a'')) p < ratio (preprocess (ustr ''a'')) (questions_proc ?n ! 0)"
    by simp
  have posn: "0 < ratio (preprocess (ustr ''a'')) (questions_proc ?n ! 0)"
    by (simp add: loaded_def preprocess_a ratio_a_abcd)
  have below: "ratio (preprocess (ustr ''a'')) (questions_proc ?n ! 0) < cutoff ?n"
    by (simp add: loaded_def preprocess_a ratio_a_abcd)
  have three: "find_best ?n (ustr ''a'') = Inr (JStr [], JStr (ustr ''abcd''), 2 / 5)"
    using tie_break_first_wins[OF ln ij jn tien mxn fsn posn, THEN conjunct2, THEN conjunct1, THEN mp, OF below]
    by (simp add: loaded_def preprocess_a ratio_a_abcd)
  from one two three show ?thesis by blast
qed

section \<open>The empty knowledge base (C8)\<close>

text \<open>
  C8: on an empty knowledge base, \<open>find_best\<close> returns exactly \<^verbatim>\<open>("", "", 0.0)\<close> for
  every query.
\<close>

theorem find_best_empty_kb:
  assumes "load_kb fs self = (None, m)" and "kb m = JArr []"
  shows "find_best m query = Inr (JStr [], JStr [], 0)"
proof -
  from load_kb_ok[OF assms(1)] obtain items where
    it: "py_iter (kb m) = Inr items"
    and qs: "comprehension (\<lambda>item. py_get item (ustr ''question'') (JStr [])) items = Inr (questions m)"
    and ps: "comprehension preprocess_value (questions m) = Inr (questions_proc m)"
    by blast
  from it assms(2) have "items = []" by simp
  with qs have "questions m = []" by simp
  with ps have "questions_proc m = []" by simp
  then have "\<forall>p\<in>set (questions_proc m). ratio (preprocess query) p \<le> 0" by simp
  then show ?thesis by (rule find_best_none)
qed

text \<open>Witness for C8: the knowledge base loaded from \<^verbatim>\<open>[]\<close>.\<close>

theorem find_best_empty_kb_witness:
  "find_best (loaded (JArr []) [] []) (ustr ''hello'') = Inr (JStr [], JStr [], 0)"
proof -
  have l: "load_kb (holds (JArr [])) fresh = (None, loaded (JArr []) [] [])"
    by (simp add: load_eval)
  have k: "kb (loaded (JArr []) [] []) = JArr []" by (simp add: loaded_def)
  from find_best_empty_kb[OF l k] show ?thesis .
qed

section \<open>The cache is parallel to the knowledge base (C9)\<close>

text \<open>
  C9, as the specification states it: the invariant holds after every successful load
  and is preserved by every operation. A reload that fails on the shape of its source
  breaks it: from a loaded knowledge base of two entries, the source
  \<^verbatim>\<open>[{"question": 5}]\<close> replaces the knowledge base and the questions, raises
  \<^verbatim>\<open>AttributeError\<close> in \<^verbatim>\<open>_preprocess\<close>, and leaves a normalized cache of length two
  beside a knowledge base of length one.
\<close>

theorem failed_reload_breaks_parallel:
  "cache_parallel (loaded (JArr [entry ''abc'' ''x'', entry ''abd'' ''y''])
                     [JStr (ustr ''abc''), JStr (ustr ''abd'')] [ustr ''abc'', ustr ''abd'']) \<and>
   reload_kb (holds (JArr [JObj [(ustr ''question'', JNum 5)]]))
     (loaded (JArr [entry ''abc'' ''x'', entry ''abd'' ''y''])
        [JStr (ustr ''abc''), JStr (ustr ''abd'')] [ustr ''abc'', ustr ''abd''])
   = (Some AttributeError,
      loaded (JArr [JObj [(ustr ''question'', JNum 5)]]) [JNum 5] [ustr ''abc'', ustr ''abd'']) \<and>
   \<not> cache_parallel (loaded (JArr [JObj [(ustr ''question'', JNum 5)]]) [JNum 5]
                       [ustr ''abc'', ustr ''abd'']) \<and>
   length (questions_proc (loaded (JArr [JObj [(ustr ''question'', JNum 5)]]) [JNum 5]
                       [ustr ''abc'', ustr ''abd''])) = 2 \<and>
   length [JObj [(ustr ''question'', JNum 5)]] = 1"
  by (simp add: reload_kb_def load_eval cache_parallel_def preprocess_abc preprocess_abd)

text \<open>
  C9, amended: the cache is parallel to the knowledge base after every construction and
  after every reload that succeeds, and a reload that fails while the source is read or
  parsed preserves the invariant. (A match reads the attributes and assigns none:
  \<open>find_best\<close> returns a result and no state.)
\<close>

theorem cache_parallel_preserved:
  "(Matcher_init fs path c = Inr m \<longrightarrow> cache_parallel m) \<and>
   (reload_kb fs self = (None, m') \<longrightarrow> cache_parallel m') \<and>
   (cache_parallel self \<and> fs (kb_path self) = Inl e \<longrightarrow>
      cache_parallel (snd (reload_kb fs self)))"
proof (intro conjI impI)
  assume "Matcher_init fs path c = Inr m"
  then have "load_kb fs \<lparr>kb_path = path, cutoff = c, kb = JNull, questions = [], questions_proc = []\<rparr>
               = (None, m)"
    by (auto simp: Matcher_init_def split: prod.splits option.splits)
  then show "cache_parallel m" by (rule load_kb_cache_parallel)
next
  assume "reload_kb fs self = (None, m')"
  then have "load_kb fs self = (None, m')" by (simp add: reload_kb_def)
  then show "cache_parallel m'" by (rule load_kb_cache_parallel)
next
  assume "cache_parallel self \<and> fs (kb_path self) = Inl e"
  then show "cache_parallel (snd (reload_kb fs self))"
    by (simp add: reload_kb_def load_kb_read_error)
qed

text \<open>Witness for C9: a construction, a reload that succeeds and one whose source does
  not parse.\<close>

theorem cache_parallel_preserved_witness:
  "cache_parallel (loaded (JArr [entry ''ab'' ''one'']) [JStr (ustr ''ab'')] [ustr ''ab'']) \<and>
   cache_parallel (loaded (JArr [entry ''ba'' ''two'']) [JStr (ustr ''ba'')] [ustr ''ba'']) \<and>
   cache_parallel (snd (reload_kb (\<lambda>path. Inl JSONDecodeError)
      (loaded (JArr [entry ''ba'' ''two'']) [JStr (ustr ''ba'')] [ustr ''ba''])))"
proof -
  let ?a = "loaded (JArr [entry ''ab'' ''one'']) [JStr (ustr ''ab'')] [ustr ''ab'']"
  let ?b = "loaded (JArr [entry ''ba'' ''two'']) [JStr (ustr ''ba'')] [ustr ''ba'']"
  have i: "Matcher_init (holds (JArr [entry ''ab'' ''one''])) (ustr ''kb.json'') (11 / 20) = Inr ?a"
    by (simp add: Matcher_init_def load_eval preprocess_ab)
  have one: "cache_parallel ?a"
    using cache_parallel_preserved[THEN conjunct1, THEN mp, OF i] .
  have r: "reload_kb (holds (JArr [entry ''ba'' ''two''])) ?a = (None, ?b)"
    by (simp add: reload_kb_def load_eval preprocess_ba)
  have two: "cache_parallel ?b"
    using cache_parallel_preserved[THEN conjunct2, THEN conjunct1, THEN mp, OF r] .
  have f: "cache_parallel ?b \<and> (\<lambda>path. Inl JSONDecodeError) (kb_path ?b) = (Inl JSONDecodeError :: py_error + json)"
    using two by simp
  have three: "cache_parallel (snd (reload_kb (\<lambda>path. Inl JSONDecodeError) ?b))"
    using cache_parallel_preserved[THEN conjunct2, THEN conjunct2, THEN mp, OF f] .
  from one two three show ?thesis by blast
qed

section \<open>All scores zero (C10)\<close>

text \<open>
  C10: on a non-empty knowledge base, a query whose score against every stored
  normalized question is exactly \<open>0\<close> gets \<^verbatim>\<open>("", "", 0.0)\<close>: no question text is
  surfaced.
\<close>

theorem find_best_all_zero:
  assumes "questions_proc self \<noteq> []"
    and "\<forall>q_proc\<in>set (questions_proc self). ratio (preprocess query) q_proc = 0"
  shows "find_best self query = Inr (JStr [], JStr [], 0)"
proof -
  from assms(2) have "\<forall>p\<in>set (questions_proc self). ratio (preprocess query) p \<le> 0" by simp
  then show ?thesis by (rule find_best_none)
qed

text \<open>Witness for C10: the query \<^verbatim>\<open>xyz\<close> shares no character with \<^verbatim>\<open>hello world\<close>.\<close>

theorem find_best_all_zero_witness:
  "find_best (loaded (JArr [entry ''Hello, World!'' ''hi'']) [JStr (ustr ''Hello, World!'')]
       [ustr ''hello world'']) (ustr ''xyz'') = Inr (JStr [], JStr [], 0)"
proof -
  let ?m = "loaded (JArr [entry ''Hello, World!'' ''hi'']) [JStr (ustr ''Hello, World!'')] [ustr ''hello world'']"
  have ne: "questions_proc ?m \<noteq> []" by (simp add: loaded_def)
  have z: "\<forall>q_proc\<in>set (questions_proc ?m). ratio (preprocess (ustr ''xyz'')) q_proc = 0"
    by (simp add: loaded_def preprocess_xyz ratio_xyz_hello_world)
  from find_best_all_zero[OF ne z] show ?thesis .
qed

end
